theory Spec2Isabelle
  imports Main
begin

unbundle bit_operations_syntax

section \<open>Exceptions and Python arrays\<close>

text \<open>
  The exceptions the modelled code can raise. \<open>NoBytesAvailable\<close> and \<open>SocketBroken\<close>
  are the package's own exception classes (module spudLinkExceptions); the others are
  Python built-ins raised by array indexing, by storing into a typed array, by
  \<open>PacketTypeEnum(code)\<close>, by calling a method of \<open>None\<close> and by socket calls.
\<close>

datatype error =
  NoBytesAvailable
  | SocketBroken
  | IndexError
  | OverflowError
  | ValueError
  | AttributeError
  | OSError

text \<open>
  \<open>arr.array('i')\<close> holds signed C ints (taken as 32 bits wide) and \<open>arr.array('B')\<close>
  holds unsigned bytes; storing a value outside the item range raises OverflowError.
\<close>

definition fits_i :: "int \<Rightarrow> bool" where
  "fits_i v \<longleftrightarrow> - 2147483648 \<le> v \<and> v \<le> 2147483647"

definition fits_B :: "int \<Rightarrow> bool" where
  "fits_B v \<longleftrightarrow> 0 \<le> v \<and> v \<le> 255"

text \<open>Python indexing \<open>xs[i]\<close>: a negative index counts from the end; out of range raises.\<close>

definition py_index :: "int list \<Rightarrow> int \<Rightarrow> int option" where
  "py_index xs i =
     (if 0 \<le> i \<and> i < int (length xs) then Some i
      else if i < 0 \<and> 0 \<le> int (length xs) + i then Some (int (length xs) + i)
      else None)"

definition getitem :: "int list \<Rightarrow> int \<Rightarrow> error + int" where
  "getitem xs i =
     (case py_index xs i of
        None \<Rightarrow> Inl IndexError
      | Some j \<Rightarrow> Inr (xs ! nat j))"

definition setitem_i :: "int list \<Rightarrow> int \<Rightarrow> int \<Rightarrow> error + int list" where
  "setitem_i xs i v =
     (case py_index xs i of
        None \<Rightarrow> Inl IndexError
      | Some j \<Rightarrow> if fits_i v then Inr (xs[nat j := v]) else Inl OverflowError)"

definition setitem_B :: "int list \<Rightarrow> int \<Rightarrow> int \<Rightarrow> error + int list" where
  "setitem_B xs i v =
     (case py_index xs i of
        None \<Rightarrow> Inl IndexError
      | Some j \<Rightarrow> if fits_B v then Inr (xs[nat j := v]) else Inl OverflowError)"

section \<open>circularBuffer.py\<close>

record CircularBuffer =
  bufferSize :: int
  buffer :: "int list"
  nextInsertIndex :: int
  nextRetrieveIndex :: int

text \<open>\<open>CircularBuffer.__init__\<close>: the loop \<open>while i <= pBufferSize\<close> allocates
  \<open>pBufferSize + 1\<close> zeroed slots (none when \<open>pBufferSize\<close> is negative).\<close>

definition CircularBuffer_init :: "int \<Rightarrow> CircularBuffer" where
  "CircularBuffer_init pBufferSize =
     \<lparr>bufferSize = pBufferSize,
      buffer = replicate (nat (pBufferSize + 1)) 0,
      nextInsertIndex = 0,
      nextRetrieveIndex = 0\<rparr>"

definition reset_cb :: "CircularBuffer \<Rightarrow> CircularBuffer" where
  "reset_cb cb = cb\<lparr>nextInsertIndex := 0, nextRetrieveIndex := 0\<rparr>"

definition available :: "CircularBuffer \<Rightarrow> int" where
  "available cb =
     (if nextInsertIndex cb \<ge> nextRetrieveIndex cb
      then nextInsertIndex cb - nextRetrieveIndex cb
      else (bufferSize cb - nextRetrieveIndex cb) + nextInsertIndex cb)"

definition append_cb :: "CircularBuffer \<Rightarrow> int \<Rightarrow> error + CircularBuffer" where
  "append_cb cb pValue =
     (case setitem_i (buffer cb) (nextInsertIndex cb) pValue of
        Inl e \<Rightarrow> Inl e
      | Inr b \<Rightarrow>
          (let n = nextInsertIndex cb + 1
           in Inr (cb\<lparr>buffer := b,
                       nextInsertIndex := (if n = bufferSize cb then 0 else n)\<rparr>)))"

definition retrieve :: "CircularBuffer \<Rightarrow> error + (int \<times> CircularBuffer)" where
  "retrieve cb =
     (if available cb = 0 then Inl NoBytesAvailable
      else
        (case getitem (buffer cb) (nextRetrieveIndex cb) of
           Inl e \<Rightarrow> Inl e
         | Inr v \<Rightarrow>
             (let n = nextRetrieveIndex cb + 1
              in Inr (v, cb\<lparr>nextRetrieveIndex := (if n = bufferSize cb then 0 else n)\<rparr>))))"

definition peek :: "CircularBuffer \<Rightarrow> error + int" where
  "peek cb =
     (if available cb = 0 then Inl NoBytesAvailable
      else getitem (buffer cb) (nextRetrieveIndex cb))"

text \<open>
  \<open>CircularBuffer.read\<close>. The loop runs while \<open>count <= pNumBytesToRead\<close>; it ends
  normally when \<open>retrieve\<close> raises NoBytesAvailable (caught) or the count passes the
  limit, and the method returns the index \<open>i\<close>. Any other exception (an IndexError of
  the caller's array) leaves the method; the value retrieved just before is already
  gone from the ring. The result is the outcome together with the caller's array and
  the ring as the call leaves them.
\<close>

function read_loop ::
  "CircularBuffer \<Rightarrow> int list \<Rightarrow> int \<Rightarrow> int \<Rightarrow> int
     \<Rightarrow> (error + int) \<times> int list \<times> CircularBuffer" where
  "read_loop cb pBuffer pNumBytesToRead count i =
     (if count \<le> pNumBytesToRead then
        (case retrieve cb of
           Inl e \<Rightarrow> (if e = NoBytesAvailable then (Inr i, pBuffer, cb) else (Inl e, pBuffer, cb))
         | Inr (v, cb') \<Rightarrow>
             (case setitem_i pBuffer i v of
                Inl e \<Rightarrow> (Inl e, pBuffer, cb')
              | Inr pBuffer' \<Rightarrow> read_loop cb' pBuffer' pNumBytesToRead (count + 1) (i + 1)))
      else (Inr i, pBuffer, cb))"
  by pat_completeness auto
termination
  by (relation "measure (\<lambda>(cb, pBuffer, pNumBytesToRead, count, i). nat (pNumBytesToRead + 1 - count))")
     auto

definition read ::
  "CircularBuffer \<Rightarrow> int list \<Rightarrow> int \<Rightarrow> int \<Rightarrow> (error + int) \<times> int list \<times> CircularBuffer" where
  "read cb pBuffer pOffset pNumBytesToRead = read_loop cb pBuffer pNumBytesToRead 0 pOffset"

subsection \<open>Client programs of the buffer\<close>

text \<open>A client drives the buffer through its methods only. \<open>exec_op\<close> gives the buffer
  after one call, whether the call returned or raised.\<close>

datatype cb_op =
  Append int
  | Retrieve
  | Peek
  | Read "int list" int int
  | Reset

fun exec_op :: "CircularBuffer \<Rightarrow> cb_op \<Rightarrow> CircularBuffer" where
  "exec_op cb (Append v) = (case append_cb cb v of Inl e \<Rightarrow> cb | Inr cb' \<Rightarrow> cb')"
| "exec_op cb Retrieve = (case retrieve cb of Inl e \<Rightarrow> cb | Inr (v, cb') \<Rightarrow> cb')"
| "exec_op cb Peek = cb"
| "exec_op cb (Read pBuffer pOffset pNumBytesToRead) =
     snd (snd (read cb pBuffer pOffset pNumBytesToRead))"
| "exec_op cb Reset = reset_cb cb"

definition run :: "CircularBuffer \<Rightarrow> cb_op list \<Rightarrow> CircularBuffer" where
  "run cb ops = foldl exec_op cb ops"

text \<open>The values a sequence of successful \<open>retrieve\<close> calls returns, until the first
  call that raises; at most \<open>n\<close> calls.\<close>

fun retrieve_all :: "nat \<Rightarrow> CircularBuffer \<Rightarrow> int list" where
  "retrieve_all 0 cb = []"
| "retrieve_all (Suc n) cb =
     (case retrieve cb of Inl e \<Rightarrow> [] | Inr (v, cb') \<Rightarrow> v # retrieve_all n cb')"

subsection \<open>Representation invariant and abstract contents\<close>

definition wf_cb :: "CircularBuffer \<Rightarrow> bool" where
  "wf_cb cb \<longleftrightarrow>
     0 < bufferSize cb \<and>
     int (length (buffer cb)) = bufferSize cb + 1 \<and>
     0 \<le> nextInsertIndex cb \<and> nextInsertIndex cb < bufferSize cb \<and>
     0 \<le> nextRetrieveIndex cb \<and> nextRetrieveIndex cb < bufferSize cb \<and>
     list_all fits_i (buffer cb)"

text \<open>The unread values, oldest first, as the two cursors delimit them.\<close>

definition contents :: "CircularBuffer \<Rightarrow> int list" where
  "contents cb =
     map (\<lambda>k. buffer cb ! nat ((nextRetrieveIndex cb + int k) mod bufferSize cb))
       [0 ..< nat (available cb)]"

text \<open>The ring after one successful \<open>retrieve\<close>: the retrieve cursor moved on by one slot.\<close>

definition advance :: "CircularBuffer \<Rightarrow> CircularBuffer" where
  "advance cb =
     cb\<lparr>nextRetrieveIndex :=
          (if nextRetrieveIndex cb + 1 = bufferSize cb then 0 else nextRetrieveIndex cb + 1)\<rparr>"

section \<open>packetTypeEnum.py and packetStatusEnum.py\<close>

datatype PacketTypeEnum =
  NO_PKT
  | ACK_PKT
  | GET_DEVICE_INFO
  | LOG_MESSAGE
  | STOP_ALL_MOTORS
  | SET_MOTOR_SPEEDS
  | GET_MOTOR_SPEEDS
  | GET_ENCODER_VALUES
  | MOVE_BY_DISTANCE_AND_TIME
  | SHUT_DOWN_OPERATING_SYSTEM

text \<open>The member's \<open>.value\<close>.\<close>

fun PacketTypeEnum_value :: "PacketTypeEnum \<Rightarrow> int" where
  "PacketTypeEnum_value NO_PKT = 0"
| "PacketTypeEnum_value ACK_PKT = 1"
| "PacketTypeEnum_value GET_DEVICE_INFO = 2"
| "PacketTypeEnum_value LOG_MESSAGE = 3"
| "PacketTypeEnum_value STOP_ALL_MOTORS = 11"
| "PacketTypeEnum_value SET_MOTOR_SPEEDS = 12"
| "PacketTypeEnum_value GET_MOTOR_SPEEDS = 13"
| "PacketTypeEnum_value GET_ENCODER_VALUES = 14"
| "PacketTypeEnum_value MOVE_BY_DISTANCE_AND_TIME = 15"
| "PacketTypeEnum_value SHUT_DOWN_OPERATING_SYSTEM = 16"

text \<open>The lookup \<open>PacketTypeEnum(code)\<close> of \<open>enum.Enum\<close>: a code that is no member's
  value raises ValueError.\<close>

definition PacketTypeEnum_of :: "int \<Rightarrow> error + PacketTypeEnum" where
  "PacketTypeEnum_of code =
     (if code = 0 then Inr NO_PKT
      else if code = 1 then Inr ACK_PKT
      else if code = 2 then Inr GET_DEVICE_INFO
      else if code = 3 then Inr LOG_MESSAGE
      else if code = 11 then Inr STOP_ALL_MOTORS
      else if code = 12 then Inr SET_MOTOR_SPEEDS
      else if code = 13 then Inr GET_MOTOR_SPEEDS
      else if code = 14 then Inr GET_ENCODER_VALUES
      else if code = 15 then Inr MOVE_BY_DISTANCE_AND_TIME
      else if code = 16 then Inr SHUT_DOWN_OPERATING_SYSTEM
      else Inl ValueError)"

text \<open>\<open>PacketStatusEnum\<close>; its member \<open>LOG_MESSAGE\<close> is written \<open>STATUS_LOG_MESSAGE\<close> here,
  the name being taken by the packet type.\<close>

datatype PacketStatusEnum =
  PACKET_VALID
  | UNKNOWN_PACKET_TYPE_ERROR
  | DUPLEX_MATCH_ERROR
  | STATUS_LOG_MESSAGE

section \<open>packetTool.py\<close>

text \<open>A socket, as far as the code uses it: \<open>send\<close> tells how many of the offered bytes
  the transport took, or raises.\<close>

datatype socket = Socket "int list \<Rightarrow> error + nat"

fun send :: "socket \<Rightarrow> int list \<Rightarrow> error + nat" where
  "send (Socket f) bs = f bs"

text \<open>The attribute \<open>byteIn\<close> holds the class \<open>type(None)\<close> after construction, and
  whatever \<open>setStreams\<close> is given afterwards: \<open>None\<close> or a CircularBuffer.\<close>

datatype stream = NoneType | PyNone | Stream CircularBuffer

record PacketTool =
  inBuffer :: "int list"
  outBuffer :: "int list"
  thisDeviceIdentifier :: int
  byteIn :: stream
  byteOut :: "socket option"
  pktType :: PacketTypeEnum
  headerValid :: bool
  numPktDataBytes :: int
  numDataBytesPlusChecksumByte :: int
  pktChecksum :: int
  destDeviceIdentifierFromReceivedPkt :: int
  sourceDeviceIdentifierFromReceivedPkt :: int
  resyncCount :: int
  reSynced :: bool
  reSyncCount :: int
  reSyncSkip :: int
  reSyncPktID :: int

definition IN_BUFFER_SIZE :: int where
  "IN_BUFFER_SIZE = 1024"

definition OUT_BUFFER_SIZE :: int where
  "OUT_BUFFER_SIZE = 1024"

definition PacketTool_init :: "int \<Rightarrow> PacketTool" where
  "PacketTool_init pThisDeviceIdentifier =
     \<lparr>inBuffer = replicate (nat (IN_BUFFER_SIZE + 1)) 0,
      outBuffer = replicate (nat (OUT_BUFFER_SIZE + 1)) 0,
      thisDeviceIdentifier = pThisDeviceIdentifier,
      byteIn = NoneType,
      byteOut = None,
      pktType = NO_PKT,
      headerValid = False,
      numPktDataBytes = 0,
      numDataBytesPlusChecksumByte = 0,
      pktChecksum = 0,
      destDeviceIdentifierFromReceivedPkt = 0,
      sourceDeviceIdentifierFromReceivedPkt = 0,
      resyncCount = 0,
      reSynced = False,
      reSyncCount = 0,
      reSyncSkip = 0,
      reSyncPktID = 0\<rparr>"

definition setStreams :: "PacketTool \<Rightarrow> stream \<Rightarrow> socket option \<Rightarrow> PacketTool" where
  "setStreams pt pInputStream pOutputStream = pt\<lparr>byteIn := pInputStream, byteOut := pOutputStream\<rparr>"

definition reset_pt :: "PacketTool \<Rightarrow> PacketTool" where
  "reset_pt pt =
     pt\<lparr>pktType := NO_PKT,
        headerValid := False,
        numPktDataBytes := 0,
        numDataBytesPlusChecksumByte := 0,
        pktChecksum := 0,
        destDeviceIdentifierFromReceivedPkt := 0,
        sourceDeviceIdentifierFromReceivedPkt := 0,
        resyncCount := 0,
        reSynced := False,
        reSyncCount := 0,
        reSyncSkip := 0,
        reSyncPktID := 0\<rparr>"

definition getPktType :: "PacketTool \<Rightarrow> PacketTypeEnum" where
  "getPktType pt = pktType pt"

text \<open>A method call on \<open>self.byteIn\<close> needs a CircularBuffer there; on \<open>None\<close> or on the
  class \<open>type(None)\<close> the attribute lookup raises AttributeError.\<close>

definition stream_of :: "PacketTool \<Rightarrow> error + CircularBuffer" where
  "stream_of pt = (case byteIn pt of Stream cb \<Rightarrow> Inr cb | NoneType \<Rightarrow> Inl AttributeError | PyNone \<Rightarrow> Inl AttributeError)"

text \<open>\<open>self.byteIn.retrieve()\<close>: the value and the tool with the ring moved on.\<close>

definition retrieve_byteIn :: "PacketTool \<Rightarrow> error + (int \<times> PacketTool)" where
  "retrieve_byteIn pt =
     (case stream_of pt of
        Inl e \<Rightarrow> Inl e
      | Inr cb \<Rightarrow>
          (case retrieve cb of
             Inl e \<Rightarrow> Inl e
           | Inr (v, cb') \<Rightarrow> Inr (v, pt\<lparr>byteIn := Stream cb'\<rparr>)))"

text \<open>\<open>PacketTool.peekForValue\<close>, on the ring.\<close>

definition peekForValue :: "CircularBuffer \<Rightarrow> int \<Rightarrow> error + (bool \<times> CircularBuffer)" where
  "peekForValue cb pTargetValue =
     (case peek cb of
        Inl e \<Rightarrow> Inl e
      | Inr peekVal \<Rightarrow>
          (if peekVal \<noteq> pTargetValue then
             (case retrieve cb of
                Inl e \<Rightarrow> Inl e
              | Inr (v, cb') \<Rightarrow> Inr (False, cb'))
           else Inr (True, cb)))"

text \<open>The loop of \<open>PacketTool.resync\<close>. On a ring whose cursors are out of their range
  the loop need not end, so not returning is the value \<open>None\<close>.\<close>

partial_function (option) resync_loop ::
  "CircularBuffer \<Rightarrow> ((error + unit) \<times> CircularBuffer) option" where
  "resync_loop cb =
     (if available cb > 0 then
        (case peekForValue cb 170 of
           Inl e \<Rightarrow> Some (Inl e, cb)
         | Inr (found, cb') \<Rightarrow> if found then Some (Inr (), cb') else resync_loop cb')
      else Some (Inr (), cb))"

declare resync_loop.simps [code]

definition resync :: "PacketTool \<Rightarrow> ((error + unit) \<times> PacketTool) option" where
  "resync pt =
     (let pt1 = pt\<lparr>resyncCount := resyncCount pt + 1\<rparr>
      in case stream_of pt1 of
           Inl e \<Rightarrow> Some (Inl e, pt1)
         | Inr cb \<Rightarrow>
             (case resync_loop cb of
                None \<Rightarrow> None
              | Some (r, cb') \<Rightarrow> Some (r, pt1\<lparr>byteIn := Stream cb'\<rparr>)))"

text \<open>The second half of \<open>checkForPacketHeaderAvailable\<close>, after both sync bytes matched:
  destination, source, type, and the two length bytes.\<close>

definition parse_header_fields :: "PacketTool \<Rightarrow> (error + unit) \<times> PacketTool" where
  "parse_header_fields pt =
     (case retrieve_byteIn pt of
        Inl e \<Rightarrow> (Inl e, pt)
      | Inr (dest, pt1) \<Rightarrow>
     let pt2 = pt1\<lparr>destDeviceIdentifierFromReceivedPkt := dest, pktChecksum := pktChecksum pt1 + dest\<rparr>
     in case retrieve_byteIn pt2 of
        Inl e \<Rightarrow> (Inl e, pt2)
      | Inr (src, pt3) \<Rightarrow>
     let pt4 = pt3\<lparr>sourceDeviceIdentifierFromReceivedPkt := src, pktChecksum := pktChecksum pt3 + src\<rparr>
     in case retrieve_byteIn pt4 of
        Inl e \<Rightarrow> (Inl e, pt4)
      | Inr (pktTypeInt, pt5) \<Rightarrow>
     let pt6 = pt5\<lparr>pktChecksum := pktChecksum pt5 + pktTypeInt\<rparr>
     in case PacketTypeEnum_of pktTypeInt of
        Inl e \<Rightarrow> (Inl e, pt6)
      | Inr ty \<Rightarrow>
     let pt7 = pt6\<lparr>pktType := ty\<rparr>
     in case retrieve_byteIn pt7 of
        Inl e \<Rightarrow> (Inl e, pt7)
      | Inr (numPktDataBytesMSB, pt8) \<Rightarrow>
     let pt9 = pt8\<lparr>pktChecksum := pktChecksum pt8 + numPktDataBytesMSB\<rparr>
     in case retrieve_byteIn pt9 of
        Inl e \<Rightarrow> (Inl e, pt9)
      | Inr (numPktDataBytesLSB, pt10) \<Rightarrow>
     let pt11 = pt10\<lparr>pktChecksum := pktChecksum pt10 + numPktDataBytesLSB\<rparr>;
         n = ((push_bit 8 numPktDataBytesMSB) AND 65280) + (numPktDataBytesLSB AND 255)
     in (Inr (), pt11\<lparr>numPktDataBytes := n,
                        numDataBytesPlusChecksumByte := n + 1,
                        headerValid := True\<rparr>))"

definition checkForPacketHeaderAvailable :: "PacketTool \<Rightarrow> ((error + unit) \<times> PacketTool) option" where
  "checkForPacketHeaderAvailable pt =
     (case stream_of pt of
        Inl e \<Rightarrow> Some (Inl e, pt)
      | Inr cb \<Rightarrow>
     if available cb < 7 then Some (Inr (), pt)
     else
     let pt1 = pt\<lparr>pktChecksum := 0\<rparr>
     in case retrieve_byteIn pt1 of
        Inl e \<Rightarrow> Some (Inl e, pt1)
      | Inr (b0, pt2) \<Rightarrow>
     if b0 \<noteq> 170 then resync pt2
     else
     let pt3 = pt2\<lparr>pktChecksum := pktChecksum pt2 + 170\<rparr>
     in case retrieve_byteIn pt3 of
        Inl e \<Rightarrow> Some (Inl e, pt3)
      | Inr (b1, pt4) \<Rightarrow>
     if b1 \<noteq> 85 then resync pt4
     else Some (parse_header_fields (pt4\<lparr>pktChecksum := pktChecksum pt4 + 85\<rparr>)))"

text \<open>The loop \<open>while i < n: acc += buf[i]; i = i + 1\<close>, used on the received bytes by
  \<open>checkForPacketReady\<close> and on the frame by \<open>sendString\<close>; the sum so far is returned
  with the outcome.\<close>

function sum_loop :: "int list \<Rightarrow> int \<Rightarrow> int \<Rightarrow> int \<Rightarrow> (error + unit) \<times> int" where
  "sum_loop buf acc i n =
     (if i < n then
        (case getitem buf i of
           Inl e \<Rightarrow> (Inl e, acc)
         | Inr b \<Rightarrow> sum_loop buf (acc + b) (i + 1) n)
      else (Inr (), acc))"
  by pat_completeness auto
termination
  by (relation "measure (\<lambda>(buf, acc, i, n). nat (n - i))") auto

text \<open>\<open>checkForPacketReady\<close> from the point where a header is held.\<close>

definition packet_body_ready :: "PacketTool \<Rightarrow> (error + bool) \<times> PacketTool" where
  "packet_body_ready pt =
     (case stream_of pt of
        Inl e \<Rightarrow> (Inl e, pt)
      | Inr cb \<Rightarrow>
     if available cb < numDataBytesPlusChecksumByte pt then (Inr False, pt)
     else
     let pt1 = pt\<lparr>headerValid := False\<rparr>
     in case read cb (inBuffer pt1) 0 (numDataBytesPlusChecksumByte pt1) of
          (r, inBuffer', cb') \<Rightarrow>
     let pt2 = pt1\<lparr>inBuffer := inBuffer', byteIn := Stream cb'\<rparr>
     in case r of
          Inl e \<Rightarrow> (Inl e, pt2)
        | Inr k \<Rightarrow>
     if destDeviceIdentifierFromReceivedPkt pt2 \<noteq> thisDeviceIdentifier pt2 then (Inr False, pt2)
     else
       (case sum_loop (inBuffer pt2) (pktChecksum pt2) 0 (numDataBytesPlusChecksumByte pt2) of
          (r', acc) \<Rightarrow>
       let pt3 = pt2\<lparr>pktChecksum := acc\<rparr>
       in case r' of
            Inl e \<Rightarrow> (Inl e, pt3)
          | Inr u \<Rightarrow> if pktChecksum pt3 AND 255 \<noteq> 0 then (Inr False, pt3) else (Inr True, pt3)))"

definition checkForPacketReady :: "PacketTool \<Rightarrow> ((error + bool) \<times> PacketTool) option" where
  "checkForPacketReady pt =
     (if byteIn pt = PyNone then Some (Inr False, pt)
      else if \<not> headerValid pt then
        (case checkForPacketHeaderAvailable pt of
           None \<Rightarrow> None
         | Some (Inl e, pt') \<Rightarrow> Some (Inl e, pt')
         | Some (Inr u, pt') \<Rightarrow>
             if \<not> headerValid pt' then Some (Inr False, pt') else Some (packet_body_ready pt'))
      else Some (packet_body_ready pt))"

text \<open>A store \<open>self.outBuffer[x] = v\<close> into the byte array.\<close>

definition store_out :: "PacketTool \<Rightarrow> int \<Rightarrow> int \<Rightarrow> error + PacketTool" where
  "store_out pt x v =
     (case setitem_B (outBuffer pt) x v of
        Inl e \<Rightarrow> Inl e
      | Inr b \<Rightarrow> Inr (pt\<lparr>outBuffer := b\<rparr>))"

definition prepareHeader ::
  "PacketTool \<Rightarrow> int \<Rightarrow> PacketTypeEnum \<Rightarrow> int \<Rightarrow> (error + int) \<times> PacketTool" where
  "prepareHeader pt pDestAddress pPacketType pNumDataBytes =
     (case store_out pt 0 170 of
        Inl e \<Rightarrow> (Inl e, pt)
      | Inr pt1 \<Rightarrow>
     case store_out pt1 1 85 of
        Inl e \<Rightarrow> (Inl e, pt1)
      | Inr pt2 \<Rightarrow>
     case store_out pt2 2 pDestAddress of
        Inl e \<Rightarrow> (Inl e, pt2)
      | Inr pt3 \<Rightarrow>
     case store_out pt3 3 (thisDeviceIdentifier pt3) of
        Inl e \<Rightarrow> (Inl e, pt3)
      | Inr pt4 \<Rightarrow>
     case store_out pt4 4 (PacketTypeEnum_value pPacketType) of
        Inl e \<Rightarrow> (Inl e, pt4)
      | Inr pt5 \<Rightarrow>
     case store_out pt5 5 ((drop_bit 8 pNumDataBytes) AND 255) of
        Inl e \<Rightarrow> (Inl e, pt5)
      | Inr pt6 \<Rightarrow>
     case store_out pt6 6 (pNumDataBytes AND 255) of
        Inl e \<Rightarrow> (Inl e, pt6)
      | Inr pt7 \<Rightarrow> (Inr 7, pt7))"

text \<open>\<open>sendOutBuffer\<close>: each turn offers the slice \<open>outBuffer[totalSent:pNumBytesToSend]\<close>
  to the socket; a turn that sends nothing raises SocketBroken.\<close>

function sendOutBuffer_loop :: "socket \<Rightarrow> int list \<Rightarrow> int \<Rightarrow> int \<Rightarrow> error + bool" where
  "sendOutBuffer_loop sock buf pNumBytesToSend totalSent =
     (if totalSent < pNumBytesToSend then
        (case send sock (drop (nat totalSent) (take (nat pNumBytesToSend) buf)) of
           Inl e \<Rightarrow> Inl e
         | Inr sent \<Rightarrow>
             if sent = 0 then Inl SocketBroken
             else sendOutBuffer_loop sock buf pNumBytesToSend (totalSent + int sent))
      else Inr True)"
  by pat_completeness auto
termination
  by (relation "measure (\<lambda>(sock, buf, pNumBytesToSend, totalSent). nat (pNumBytesToSend - totalSent))")
     auto

definition sendOutBuffer :: "PacketTool \<Rightarrow> int \<Rightarrow> error + bool" where
  "sendOutBuffer pt pNumBytesToSend =
     (if 0 < pNumBytesToSend then
        (case byteOut pt of
           None \<Rightarrow> Inl AttributeError
         | Some sock \<Rightarrow> sendOutBuffer_loop sock (outBuffer pt) pNumBytesToSend 0)
      else Inr True)"

text \<open>The copy loop of \<open>sendString\<close>, on the bytes still to copy: it stops early when the
  write index reaches \<open>OUT_BUFFER_SIZE - 2\<close>.\<close>

fun copy_loop :: "PacketTool \<Rightarrow> int list \<Rightarrow> int \<Rightarrow> (error + int) \<times> PacketTool" where
  "copy_loop pt [] x = (Inr x, pt)"
| "copy_loop pt (b # bs) x =
     (case store_out pt x b of
        Inl e \<Rightarrow> (Inl e, pt)
      | Inr pt' \<Rightarrow>
          if x + 1 = OUT_BUFFER_SIZE - 2 then (Inr (x + 1), pt') else copy_loop pt' bs (x + 1))"

text \<open>
  \<open>sendString\<close>. The Python string is given as the bytes \<open>str.encode\<close> makes of it (a
  \<open>string\<close> is a list of 8-bit characters). The result is the outcome of the call and the
  tool with its \<open>outBuffer\<close> as the call leaves it.
\<close>

definition sendString ::
  "PacketTool \<Rightarrow> int \<Rightarrow> PacketTypeEnum \<Rightarrow> string \<Rightarrow> (error + bool) \<times> PacketTool" where
  "sendString pt pDestAddress pPacketType pString =
     (let msgBytes = map of_char pString;
          msgLength = int (length msgBytes);
          msgLengthPlusNullTerminator = msgLength + 1
      in case prepareHeader pt pDestAddress pPacketType msgLengthPlusNullTerminator of
           (Inl e, pt1) \<Rightarrow> (Inl e, pt1)
         | (Inr x0, pt1) \<Rightarrow>
      case copy_loop pt1 msgBytes x0 of
           (Inl e, pt2) \<Rightarrow> (Inl e, pt2)
         | (Inr x1, pt2) \<Rightarrow>
      case (if x1 < OUT_BUFFER_SIZE - 1
            then (case store_out pt2 x1 0 of Inl e \<Rightarrow> (Inl e, pt2) | Inr pt3 \<Rightarrow> (Inr (x1 + 1), pt3))
            else (Inr x1, pt2)) of
           (Inl e, pt3) \<Rightarrow> (Inl e, pt3)
         | (Inr x2, pt3) \<Rightarrow>
      case sum_loop (outBuffer pt3) 0 0 x2 of
           (Inl e, checksum) \<Rightarrow> (Inl e, pt3)
         | (Inr u, checksum) \<Rightarrow>
      case store_out pt3 x2 (256 - (checksum AND 255)) of
           Inl e \<Rightarrow> (Inl e, pt3)
         | Inr pt4 \<Rightarrow> (sendOutBuffer pt4 (x2 + 1), pt4))"

text \<open>\<open>signExtend\<close>; a negative shift count raises ValueError in Python.\<close>

definition signExtend :: "int \<Rightarrow> int \<Rightarrow> error + int" where
  "signExtend pValue pBits =
     (if pBits - 1 < 0 then Inl ValueError
      else
        (let signBit = push_bit (nat (pBits - 1)) 1;
             mask = signBit - 1
         in Inr ((pValue AND mask) - (pValue AND signBit))))"

definition parseUnsignedByteFromPacket ::
  "PacketTool \<Rightarrow> int \<Rightarrow> error + (PacketStatusEnum \<times> int \<times> int)" where
  "parseUnsignedByteFromPacket pt pIndex =
     (case getitem (inBuffer pt) pIndex of
        Inl e \<Rightarrow> Inl e
      | Inr v \<Rightarrow>
          (case signExtend v 8 of
             Inl e \<Rightarrow> Inl e
           | Inr v' \<Rightarrow> Inr (PACKET_VALID, pIndex + 1, v')))"

definition parseDuplexIntegerFromPacket ::
  "PacketTool \<Rightarrow> int \<Rightarrow> error + (PacketStatusEnum \<times> int \<times> int)" where
  "parseDuplexIntegerFromPacket pt pIndex =
     (case getitem (inBuffer pt) pIndex of
        Inl e \<Rightarrow> Inl e
      | Inr valueMSB \<Rightarrow>
     case getitem (inBuffer pt) (pIndex + 1) of
        Inl e \<Rightarrow> Inl e
      | Inr valueLSB \<Rightarrow>
     case signExtend (((push_bit 8 valueMSB) AND 65280) + (valueLSB AND 255)) 16 of
        Inl e \<Rightarrow> Inl e
      | Inr v \<Rightarrow>
     case getitem (inBuffer pt) (pIndex + 2) of
        Inl e \<Rightarrow> Inl e
      | Inr copyMSB \<Rightarrow>
     case getitem (inBuffer pt) (pIndex + 3) of
        Inl e \<Rightarrow> Inl e
      | Inr copyLSB \<Rightarrow>
     case signExtend (((push_bit 8 copyMSB) AND 65280) + (copyLSB AND 255)) 16 of
        Inl e \<Rightarrow> Inl e
      | Inr copy \<Rightarrow>
          Inr (if v = copy then PACKET_VALID else DUPLEX_MATCH_ERROR, pIndex + 4, v))"

section \<open>ethernetLink.py\<close>

definition RECEIVE_BUFFER_SIZE :: int where
  "RECEIVE_BUFFER_SIZE = 50"

record EthernetLink =
  connected :: bool
  receiveBuf :: CircularBuffer
  clientSocket :: "socket option"

text \<open>\<open>EthernetLink.__init__\<close>, without the listening socket.\<close>

definition EthernetLink_init :: EthernetLink where
  "EthernetLink_init =
     \<lparr>connected = False,
      receiveBuf = CircularBuffer_init RECEIVE_BUFFER_SIZE,
      clientSocket = None\<rparr>"

text \<open>The moment \<open>connectToRemoteIfRequestPending\<close> accepts a connection.\<close>

definition accept_connection :: "EthernetLink \<Rightarrow> socket \<Rightarrow> EthernetLink" where
  "accept_connection link sock = link\<lparr>clientSocket := Some sock, connected := True\<rparr>"

text \<open>
  \<open>EthernetLink.disconnect\<close>. Whether the socket's \<open>shutdown\<close> and \<open>close\<close> raise OSError
  is the operating system's answer, given here as the two flags. A \<open>shutdown\<close> that
  raises is caught; a \<open>close\<close> that raises is re-raised as SocketBroken. With no client
  socket the call \<open>self.clientSocket.shutdown\<close> is made on \<open>None\<close>.
\<close>

definition disconnect :: "EthernetLink \<Rightarrow> bool \<Rightarrow> bool \<Rightarrow> (error + int) \<times> EthernetLink" where
  "disconnect link shutdownRaises closeRaises =
     (let link1 = link\<lparr>receiveBuf := reset_cb (receiveBuf link), connected := False\<rparr>
      in case clientSocket link1 of
           None \<Rightarrow> (Inl AttributeError, link1)
         | Some sock \<Rightarrow> if closeRaises then (Inl SocketBroken, link1) else (Inr 0, link1))"

section \<open>Specification-side definitions\<close>

text \<open>Specification side: the big-endian 16-bit two's-complement integer that the two
  bytes \<open>hi\<close>, \<open>lo\<close> (taken modulo 256) encode.\<close>

definition be16_twos_complement :: "int \<Rightarrow> int \<Rightarrow> int" where
  "be16_twos_complement hi lo =
     (let u = 256 * (hi mod 256) + lo mod 256
      in if u < 32768 then u else u - 65536)"

text \<open>Specification side: the seven header bytes the wire format prescribes for a
  destination, a source, a packet type and a payload length.\<close>

definition header_bytes :: "int \<Rightarrow> int \<Rightarrow> PacketTypeEnum \<Rightarrow> int \<Rightarrow> int list" where
  "header_bytes dest src ty n =
     [170, 85, dest, src, PacketTypeEnum_value ty, (n div 256) mod 256, n mod 256]"

section \<open>Properties of the ring buffer\<close>

lemma mod_once: "0 \<le> a \<Longrightarrow> a < 2 * C \<Longrightarrow> 0 < C \<Longrightarrow> (a::int) mod C = (if a < C then a else a - C)"
proof (cases "a < C")
  case True
  assume "0 \<le> a" with True show ?thesis by simp
next
  case False
  assume a: "a < 2 * C" "0 < C"
  have "(a - C) mod C = a mod C" by simp
  moreover have "(a - C) mod C = a - C" using False a by (intro mod_pos_pos_trivial) auto
  ultimately show ?thesis using False by simp
qed

lemma wf_cb_init: "0 < C \<Longrightarrow> wf_cb (CircularBuffer_init C)"
  by (simp add: wf_cb_def CircularBuffer_init_def list_all_length fits_i_def)

lemma available_bounds: "wf_cb cb \<Longrightarrow> 0 \<le> available cb \<and> available cb < bufferSize cb"
  by (auto simp: wf_cb_def available_def)

lemma length_contents: "length (contents cb) = nat (available cb)"
  by (simp add: contents_def)

lemma insert_index_eq: "wf_cb cb \<Longrightarrow> (nextRetrieveIndex cb + available cb) mod bufferSize cb = nextInsertIndex cb"
  by (auto simp: wf_cb_def available_def)

lemma py_index_in_range: "0 \<le> i \<Longrightarrow> i < int (length xs) \<Longrightarrow> py_index xs i = Some i"
  by (simp add: py_index_def)

lemma append_cb_wf:
  assumes "wf_cb cb" "fits_i v"
  shows "\<exists>cb'. append_cb cb v = Inr cb' \<and> wf_cb cb' \<and> bufferSize cb' = bufferSize cb \<and>
     nextRetrieveIndex cb' = nextRetrieveIndex cb \<and>
     nextInsertIndex cb' = (nextInsertIndex cb + 1) mod bufferSize cb \<and>
     buffer cb' = (buffer cb)[nat (nextInsertIndex cb) := v]"
  using assms
  by (auto simp: append_cb_def setitem_i_def py_index_in_range wf_cb_def Let_def list_all_length nth_list_update)

lemma contents_nth:
  "k < nat (available cb) \<Longrightarrow>
   contents cb ! k = buffer cb ! nat ((nextRetrieveIndex cb + int k) mod bufferSize cb)"
  by (simp add: contents_def)

lemma available_append:
  assumes "wf_cb cb" "append_cb cb v = Inr cb'"
  shows "available cb' = (if available cb = bufferSize cb - 1 then 0 else available cb + 1)"
  using assms
  by (auto simp: append_cb_def setitem_i_def py_index_in_range wf_cb_def Let_def available_def split: if_splits)

lemma contents_append:
  assumes wf: "wf_cb cb" and fit: "fits_i v" and room: "available cb < bufferSize cb - 1"
    and ap: "append_cb cb v = Inr cb'"
  shows "contents cb' = contents cb @ [v]"
proof (rule nth_equalityI)
  from append_cb_wf[OF wf fit] ap have
    bs: "bufferSize cb' = bufferSize cb" and rt: "nextRetrieveIndex cb' = nextRetrieveIndex cb"
    and bf: "buffer cb' = (buffer cb)[nat (nextInsertIndex cb) := v]" by auto
  have av: "available cb' = available cb + 1" using available_append[OF wf ap] room by simp
  have av0: "0 \<le> available cb" using available_bounds[OF wf] by simp
  show len: "length (contents cb') = length (contents cb @ [v])"
    using av av0 by (simp add: length_contents)
  fix k assume "k < length (contents cb')"
  then have k: "int k \<le> available cb" using av av0 by (simp add: length_contents)
  let ?C = "bufferSize cb"
  let ?r = "nextRetrieveIndex cb"
  have C: "0 < ?C" "0 \<le> ?r" "?r < ?C" "0 \<le> nextInsertIndex cb" "nextInsertIndex cb < ?C"
    "int (length (buffer cb)) = ?C + 1" using wf by (auto simp: wf_cb_def)
  have ins: "(?r + available cb) mod ?C = nextInsertIndex cb" by (rule insert_index_eq[OF wf])
  have kth': "contents cb' ! k = (buffer cb)[nat (nextInsertIndex cb) := v] ! nat ((?r + int k) mod ?C)"
  proof -
    have "k < nat (available cb')" using k av av0 by simp
    then show ?thesis by (simp add: contents_nth bs rt bf)
  qed
  show "contents cb' ! k = (contents cb @ [v]) ! k"
  proof (cases "int k = available cb")
    case True
    then have "(?r + int k) mod ?C = nextInsertIndex cb" using ins by simp
    moreover have "k = length (contents cb)" using True av0 by (simp add: length_contents)
    then have "(contents cb @ [v]) ! k = v" by simp
    ultimately show ?thesis using kth' C by simp
  next
    case False
    then have klt: "int k < available cb" using k by simp
    have neq: "(?r + int k) mod ?C \<noteq> nextInsertIndex cb"
    proof -
      have a: "0 \<le> ?r + int k" "?r + int k < 2 * ?C" using C klt room by auto
      have b: "0 \<le> ?r + available cb" "?r + available cb < 2 * ?C" using C av0 room by auto
      have "(?r + int k) mod ?C \<noteq> (?r + available cb) mod ?C"
        using klt room C by (simp add: mod_once[OF a C(1)] mod_once[OF b C(1)])
      then show ?thesis using ins by simp
    qed
    have nn: "0 \<le> (?r + int k) mod ?C" using C by simp
    have "nat ((?r + int k) mod ?C) \<noteq> nat (nextInsertIndex cb)"
      using neq nn C(4) by (simp add: nat_eq_iff)
    then have "contents cb' ! k = buffer cb ! nat ((?r + int k) mod ?C)" using kth' by simp
    moreover have "k < nat (available cb)" using klt by simp
    then have "(contents cb @ [v]) ! k = buffer cb ! nat ((?r + int k) mod ?C)"
      by (simp add: nth_append length_contents contents_nth)
    ultimately show ?thesis by simp
  qed
qed

lemma retrieve_empty: "available cb = 0 \<Longrightarrow> retrieve cb = Inl NoBytesAvailable"
  by (simp add: retrieve_def)

lemma retrieve_wf:
  assumes wf: "wf_cb cb" and ne: "available cb \<noteq> 0"
  shows "\<exists>cb'. retrieve cb = Inr (buffer cb ! nat (nextRetrieveIndex cb), cb') \<and> wf_cb cb' \<and>
     bufferSize cb' = bufferSize cb \<and> buffer cb' = buffer cb \<and>
     nextInsertIndex cb' = nextInsertIndex cb \<and>
     nextRetrieveIndex cb' = (nextRetrieveIndex cb + 1) mod bufferSize cb \<and>
     available cb' = available cb - 1"
  using assms
  by (auto simp: retrieve_def getitem_def py_index_in_range wf_cb_def Let_def available_def)

lemma contents_retrieve:
  assumes wf: "wf_cb cb" and ne: "available cb \<noteq> 0" and rt: "retrieve cb = Inr (x, cb')"
  shows "contents cb = x # contents cb'"
proof (rule nth_equalityI)
  from retrieve_wf[OF wf ne] rt have
    x: "x = buffer cb ! nat (nextRetrieveIndex cb)" and
    bs: "bufferSize cb' = bufferSize cb" and bf: "buffer cb' = buffer cb"
    and r': "nextRetrieveIndex cb' = (nextRetrieveIndex cb + 1) mod bufferSize cb"
    and av: "available cb' = available cb - 1" by auto
  have av0: "0 < available cb" using available_bounds[OF wf] ne by simp
  show "length (contents cb) = length (x # contents cb')"
    using av av0 by (simp add: length_contents)
  have C: "0 < bufferSize cb" "0 \<le> nextRetrieveIndex cb" "nextRetrieveIndex cb < bufferSize cb"
    using wf by (auto simp: wf_cb_def)
  fix k assume kl: "k < length (contents cb)"
  show "contents cb ! k = (x # contents cb') ! k"
  proof (cases k)
    case 0
    then show ?thesis using av0 x C by (simp add: contents_nth)
  next
    case (Suc j)
    have "j < nat (available cb')" using kl Suc av by (simp add: length_contents)
    then have "contents cb' ! j = buffer cb ! nat (((nextRetrieveIndex cb + 1) mod bufferSize cb + int j) mod bufferSize cb)"
      by (simp add: contents_nth bs bf r')
    also have "((nextRetrieveIndex cb + 1) mod bufferSize cb + int j) mod bufferSize cb
       = (nextRetrieveIndex cb + int (Suc j)) mod bufferSize cb"
    proof -
      have "((nextRetrieveIndex cb + 1) mod bufferSize cb + int j) mod bufferSize cb
        = ((nextRetrieveIndex cb + 1) + int j) mod bufferSize cb" by (rule mod_add_left_eq)
      then show ?thesis by (simp add: add.assoc)
    qed
    finally show ?thesis using kl Suc by (simp add: contents_nth length_contents)
  qed
qed

lemma append_cb_Inr_wf:
  assumes "wf_cb cb" "append_cb cb v = Inr cb'"
  shows "wf_cb cb' \<and> bufferSize cb' = bufferSize cb"
proof -
  have "fits_i v" using assms(2)
    by (auto simp: append_cb_def setitem_i_def split: option.splits if_splits)
  from append_cb_wf[OF assms(1) this] assms(2) show ?thesis by auto
qed

lemma retrieve_Inr_wf:
  assumes "wf_cb cb" "retrieve cb = Inr (v, cb')"
  shows "wf_cb cb' \<and> bufferSize cb' = bufferSize cb"
proof -
  have "available cb \<noteq> 0" using assms(2) by (auto simp: retrieve_def split: if_splits)
  from retrieve_wf[OF assms(1) this] assms(2) show ?thesis by auto
qed

lemma read_loop_wf:
  "wf_cb cb \<Longrightarrow> wf_cb (snd (snd (read_loop cb pBuffer n count i))) \<and>
     bufferSize (snd (snd (read_loop cb pBuffer n count i))) = bufferSize cb"
proof (induction cb pBuffer n count i rule: read_loop.induct)
  case (1 cb pBuffer n count i)
  show ?case
  proof (cases "count \<le> n")
    case False
    then show ?thesis using "1.prems" by simp
  next
    case True
    show ?thesis
    proof (cases "retrieve cb")
      case (Inl e)
      then show ?thesis using True "1.prems" by simp
    next
      case (Inr p)
      obtain v cb' where p: "p = (v, cb')" by (cases p)
      have wf': "wf_cb cb'" and bs': "bufferSize cb' = bufferSize cb"
        using retrieve_Inr_wf[OF "1.prems"] Inr p by simp_all
      show ?thesis
      proof (cases "setitem_i pBuffer i v")
        case (Inl e)
        then show ?thesis using True \<open>retrieve cb = Inr p\<close> p wf' bs' by simp
      next
        case (Inr pBuffer')
        have "wf_cb (snd (snd (read_loop cb' pBuffer' n (count + 1) (i + 1)))) \<and>
          bufferSize (snd (snd (read_loop cb' pBuffer' n (count + 1) (i + 1)))) = bufferSize cb'"
          using "1.IH"[OF True \<open>retrieve cb = Inr p\<close> p[symmetric] Inr wf'] .
        then show ?thesis using True \<open>retrieve cb = Inr p\<close> p Inr bs' by simp
      qed
    qed
  qed
qed

lemma exec_op_wf:
  "wf_cb cb \<Longrightarrow> wf_cb (exec_op cb op) \<and> bufferSize (exec_op cb op) = bufferSize cb"
proof (cases op)
  case (Append v)
  assume "wf_cb cb"
  then show ?thesis
  proof (cases "append_cb cb v")
    case (Inl e)
    then show ?thesis using Append \<open>wf_cb cb\<close> by simp
  next
    case (Inr cb')
    then show ?thesis using Append append_cb_Inr_wf[OF \<open>wf_cb cb\<close>, of v cb'] by simp
  qed
next
  case Retrieve
  assume "wf_cb cb"
  then show ?thesis
  proof (cases "retrieve cb")
    case (Inl e)
    then show ?thesis using Retrieve \<open>wf_cb cb\<close> by simp
  next
    case (Inr p)
    obtain v cb' where p: "p = (v, cb')" by (cases p)
    then show ?thesis using Retrieve Inr retrieve_Inr_wf[OF \<open>wf_cb cb\<close>, of v cb'] by simp
  qed
next
  case Peek
  assume "wf_cb cb"
  then show ?thesis using Peek by simp
next
  case (Read pBuffer pOffset n)
  assume "wf_cb cb"
  then show ?thesis using Read read_loop_wf by (simp add: read_def)
next
  case Reset
  assume "wf_cb cb"
  then show ?thesis using Reset by (simp add: reset_cb_def wf_cb_def)
qed

lemma run_wf: "wf_cb cb \<Longrightarrow> wf_cb (run cb ops) \<and> bufferSize (run cb ops) = bufferSize cb"
  unfolding run_def by (induction ops arbitrary: cb) (auto simp: exec_op_wf)

lemma run_append: "run cb (xs @ ys) = run (run cb xs) ys"
  by (simp add: run_def)

lemma run_appends:
  assumes "wf_cb cb" "list_all fits_i vs"
  shows "nextRetrieveIndex (run cb (map Append vs)) = nextRetrieveIndex cb \<and>
         bufferSize (run cb (map Append vs)) = bufferSize cb \<and>
         nextInsertIndex (run cb (map Append vs)) =
           (nextInsertIndex cb + int (length vs)) mod bufferSize cb"
  using assms
proof (induction vs arbitrary: cb)
  case Nil
  then show ?case by (simp add: run_def wf_cb_def)
next
  case (Cons v vs)
  from Cons.prems have fv: "fits_i v" and fvs: "list_all fits_i vs" by simp_all
  from append_cb_wf[OF Cons.prems(1) fv] obtain cb' where
    ap: "append_cb cb v = Inr cb'" and wf': "wf_cb cb'" and bs: "bufferSize cb' = bufferSize cb"
    and rt: "nextRetrieveIndex cb' = nextRetrieveIndex cb"
    and ins: "nextInsertIndex cb' = (nextInsertIndex cb + 1) mod bufferSize cb" by auto
  have step: "run cb (map Append (v # vs)) = run cb' (map Append vs)"
    using ap by (simp add: run_def)
  have "((nextInsertIndex cb + 1) mod bufferSize cb + int (length vs)) mod bufferSize cb
      = ((nextInsertIndex cb + 1) + int (length vs)) mod bufferSize cb" by (rule mod_add_left_eq)
  then show ?case using Cons.IH[OF wf' fvs] step bs rt ins by (simp add: add.assoc)
qed

text \<open>
  Claim C10. In every state a client can reach from a buffer constructed with capacity
  \<open>C\<close> (at least 1), \<open>available\<close> is between 0 and \<open>C - 1\<close>: it never reports \<open>C\<close>,
  although \<open>C + 1\<close> slots are allocated. And \<open>C\<close> appends in a row to an empty buffer
  bring the insert cursor back onto the retrieve cursor: \<open>available\<close> is 0 again, and
  \<open>retrieve\<close> and \<open>peek\<close> raise NoBytesAvailable, so none of the \<open>C\<close> values can be read.
\<close>

theorem available_below_capacity:
  assumes "0 < C"
  shows "0 \<le> available (run (CircularBuffer_init C) ops) \<and>
         available (run (CircularBuffer_init C) ops) \<le> C - 1 \<and>
         (available (run (CircularBuffer_init C) ops) = 0 \<and>
               int (length vs) = C \<and> list_all fits_i vs \<longrightarrow>
               (let cb = run (CircularBuffer_init C) (ops @ map Append vs)
                in nextInsertIndex cb = nextRetrieveIndex cb \<and> available cb = 0 \<and>
                   retrieve cb = Inl NoBytesAvailable \<and> peek cb = Inl NoBytesAvailable))"
proof -
  let ?cb = "run (CircularBuffer_init C) ops"
  have wf0: "wf_cb (CircularBuffer_init C)" using assms by (rule wf_cb_init)
  have wf: "wf_cb ?cb" and bs: "bufferSize ?cb = C"
    using run_wf[OF wf0, of ops] by (simp_all add: CircularBuffer_init_def)
  have bounds: "0 \<le> available ?cb \<and> available ?cb \<le> C - 1"
    using available_bounds[OF wf] bs by simp
  have full: "nextInsertIndex cb = nextRetrieveIndex cb \<and> available cb = 0 \<and>
      retrieve cb = Inl NoBytesAvailable \<and> peek cb = Inl NoBytesAvailable"
    if e: "available ?cb = 0" and l: "int (length vs) = C" and f: "list_all fits_i vs"
      and cb: "cb = run (CircularBuffer_init C) (ops @ map Append vs)" for vs cb
  proof -
    have eq: "nextInsertIndex ?cb = nextRetrieveIndex ?cb"
      using e wf by (auto simp: available_def wf_cb_def split: if_splits)
    have r: "0 \<le> nextInsertIndex ?cb" "nextInsertIndex ?cb < C" using wf bs by (auto simp: wf_cb_def)
    have "nextInsertIndex cb = (nextInsertIndex ?cb + C) mod C"
      using run_appends[OF wf f] l bs cb by (simp add: run_append)
    then have i: "nextInsertIndex cb = nextInsertIndex ?cb" using r by simp
    have "nextRetrieveIndex cb = nextRetrieveIndex ?cb"
      using run_appends[OF wf f] cb by (simp add: run_append)
    with i eq have c: "nextInsertIndex cb = nextRetrieveIndex cb" by simp
    then have "available cb = 0" by (simp add: available_def)
    with c show ?thesis by (simp add: retrieve_def peek_def)
  qed
  have "available ?cb = 0 \<and> int (length vs) = C \<and> list_all fits_i vs \<longrightarrow>
          (let cb = run (CircularBuffer_init C) (ops @ map Append vs)
           in nextInsertIndex cb = nextRetrieveIndex cb \<and> available cb = 0 \<and>
              retrieve cb = Inl NoBytesAvailable \<and> peek cb = Inl NoBytesAvailable)"
    unfolding Let_def using full[OF _ _ _ refl] by blast
  with bounds show ?thesis by blast
qed

theorem available_below_capacity_witness:
  "0 \<le> available (run (CircularBuffer_init 3) [Append 5, Retrieve]) \<and>
   available (run (CircularBuffer_init 3) [Append 5, Retrieve]) \<le> 3 - 1 \<and>
   available (run (CircularBuffer_init 3) [Append 5, Retrieve]) = 0 \<and>
   int (length [7, 8, 9 :: int]) = 3 \<and> list_all fits_i [7, 8, 9] \<and>
   retrieve (run (CircularBuffer_init 3) ([Append 5, Retrieve] @ map Append [7, 8, 9])) = Inl NoBytesAvailable"
proof -
  have h: "(0::int) < 3" by simp
  have a: "available (run (CircularBuffer_init 3) [Append 5, Retrieve]) = 0" by code_simp
  have f: "list_all fits_i [7, 8, 9]" by (simp add: fits_i_def)
  have l: "int (length [7, 8, 9 :: int]) = 3" by simp
  from available_below_capacity[OF h, of "[Append 5, Retrieve]" "[7, 8, 9]"] a f l
  show ?thesis unfolding Let_def by blast
qed

section \<open>Bit masks and sign extension\<close>

lemma and_255: "(x::int) AND 255 = x mod 256"
proof -
  have "(255::int) = mask 8" by (simp add: mask_eq_exp_minus_1)
  then have "x AND 255 = take_bit 8 x" by (simp only: take_bit_eq_mask)
  then show ?thesis by (simp add: take_bit_eq_mod)
qed

lemma and_32767: "(x::int) AND 32767 = x mod 32768"
proof -
  have "(32767::int) = mask 15" by (simp add: mask_eq_exp_minus_1)
  then have "x AND 32767 = take_bit 15 x" by (simp only: take_bit_eq_mask)
  then show ?thesis by (simp add: take_bit_eq_mod)
qed

lemma and_65535: "(x::int) AND 65535 = x mod 65536"
proof -
  have "(65535::int) = mask 16" by (simp add: mask_eq_exp_minus_1)
  then have "x AND 65535 = take_bit 16 x" by (simp only: take_bit_eq_mask)
  then show ?thesis by (simp add: take_bit_eq_mod)
qed

lemma shift_and: "(push_bit 8 (m::int)) AND 65280 = 256 * (m mod 256)"
proof -
  have "(65280::int) = push_bit 8 255" by simp
  then have "push_bit 8 m AND 65280 = push_bit 8 (m AND 255)"
    by (simp only: push_bit_and)
  then show ?thesis by (simp add: and_255 push_bit_eq_mult)
qed

lemma and_split16: "((v::int) AND 32767) + (v AND 32768) = v mod 65536"
proof -
  have d: "(v AND 32767) AND (v AND 32768) = 0"
  proof -
    have "(v AND 32767) AND (v AND 32768) = v AND ((32767::int) AND 32768)"
      by (simp add: ac_simps)
    also have "(32767::int) AND 32768 = 0" by simp
    finally show ?thesis by simp
  qed
  have "(v AND 32767) + (v AND 32768) = (v AND 32767) OR (v AND 32768)"
    by (rule disjunctive_add_eq_or) (rule d)
  also have "\<dots> = v AND ((32767::int) OR 32768)" by (simp only: bit.conj_disj_distrib)
  also have "(32767::int) OR 32768 = 65535" by simp
  finally show ?thesis by (simp add: and_65535)
qed

lemma signExtend_16:
  assumes "0 \<le> v" "v < 65536"
  shows "signExtend v 16 = Inr (if v < 32768 then v else v - 65536)"
proof -
  have m: "v AND 32767 = v mod 32768" by (rule and_32767)
  have s: "v AND 32768 = v - v mod 32768" using and_split16[of v] m assms by simp
  have "(v AND 32767) - (v AND 32768) = (if v < 32768 then v else v - 65536)"
  proof (cases "v < 32768")
    case True
    then show ?thesis using m s assms by simp
  next
    case False
    then have "v mod 32768 = v - 32768" using assms mod_once[of v 32768] by simp
    then show ?thesis using m s False by simp
  qed
  then show ?thesis by (simp add: signExtend_def Let_def)
qed

lemma getitem_in_range: "0 \<le> i \<Longrightarrow> i < int (length xs) \<Longrightarrow> getitem xs i = Inr (xs ! nat i)"
  by (simp add: getitem_def py_index_in_range)

lemma signExtend_be16:
  "signExtend ((push_bit 8 hi AND 65280) + (lo AND 255)) 16 = Inr (be16_twos_complement hi lo)"
proof -
  let ?u = "256 * (hi mod 256) + lo mod 256"
  have "0 \<le> ?u" "?u < 65536"
  proof -
    have "0 \<le> hi mod 256" "hi mod 256 < 256" "0 \<le> lo mod 256" "lo mod 256 < 256" by simp_all
    then show "0 \<le> ?u" "?u < 65536" by linarith+
  qed
  from signExtend_16[OF this] show ?thesis
    by (simp add: shift_and and_255 be16_twos_complement_def Let_def)
qed

text \<open>
  Claim C9. With at least four array slots from the cursor on, \<open>parseDuplexIntegerFromPacket\<close>
  decodes the big-endian 16-bit two's-complement integer at the cursor and its duplicate
  in the next two bytes, returns the cursor advanced by exactly 4 and the primary value
  in every case, with status DUPLEX_MATCH_ERROR if and only if the two decoded values
  differ and PACKET_VALID otherwise.
\<close>

theorem parseDuplexInteger_correct:
  assumes "0 \<le> pIndex" and "pIndex + 4 \<le> int (length (inBuffer pt))"
  shows "parseDuplexIntegerFromPacket pt pIndex =
     (let primary = be16_twos_complement (inBuffer pt ! nat pIndex) (inBuffer pt ! nat (pIndex + 1));
          duplicate = be16_twos_complement (inBuffer pt ! nat (pIndex + 2)) (inBuffer pt ! nat (pIndex + 3))
      in Inr (if primary = duplicate then PACKET_VALID else DUPLEX_MATCH_ERROR, pIndex + 4, primary))"
proof -
  have g: "getitem (inBuffer pt) (pIndex + k) = Inr (inBuffer pt ! nat (pIndex + k))"
    if "0 \<le> k" "k < 4" for k
    using assms that by (intro getitem_in_range) auto
  have g0: "getitem (inBuffer pt) pIndex = Inr (inBuffer pt ! nat pIndex)" using g[of 0] by simp
  show ?thesis
    unfolding parseDuplexIntegerFromPacket_def Let_def
    by (simp add: g0 g signExtend_be16)
qed

theorem parseDuplexInteger_correct_witness:
  "(0::int) \<le> 0 \<and> (0::int) + 4 \<le> int (length (inBuffer ((PacketTool_init 0)\<lparr>inBuffer := [0, 100, 0, 101]\<rparr>))) \<and>
   parseDuplexIntegerFromPacket ((PacketTool_init 0)\<lparr>inBuffer := [0, 100, 0, 101]\<rparr>) 0
     = Inr (DUPLEX_MATCH_ERROR, 4, 100)"
proof -
  let ?pt = "(PacketTool_init 0)\<lparr>inBuffer := [0, 100, 0, 101]\<rparr>"
  have a: "(0::int) \<le> 0" by simp
  have b: "(0::int) + 4 \<le> int (length (inBuffer ?pt))" by simp
  from parseDuplexInteger_correct[OF a b] show ?thesis
    by (simp add: be16_twos_complement_def Let_def)
qed

section \<open>Resynchronisation\<close>

lemma contents_Nil_iff: "wf_cb cb \<Longrightarrow> contents cb = [] \<longleftrightarrow> available cb = 0"
  using available_bounds[of cb] length_contents[of cb] by (auto simp del: length_0_conv simp: length_0_conv[symmetric])

lemma hd_contents:
  assumes "wf_cb cb" "available cb \<noteq> 0"
  shows "hd (contents cb) = buffer cb ! nat (nextRetrieveIndex cb)"
proof -
  have p: "0 < nat (available cb)" using available_bounds[OF assms(1)] assms(2) by simp
  then have "contents cb \<noteq> []" using length_contents[of cb] by auto
  then have "hd (contents cb) = contents cb ! 0" by (simp add: hd_conv_nth)
  also have "\<dots> = buffer cb ! nat (nextRetrieveIndex cb)"
    using contents_nth[OF p] assms(1) by (simp add: wf_cb_def)
  finally show ?thesis .
qed

lemma peek_contents:
  assumes "wf_cb cb" "contents cb = x # xs"
  shows "peek cb = Inr x"
proof -
  have ne: "available cb \<noteq> 0" using contents_Nil_iff[OF assms(1)] assms(2) by auto
  have "x = buffer cb ! nat (nextRetrieveIndex cb)" using hd_contents[OF assms(1) ne] assms(2) by simp
  then show ?thesis using ne assms(1) by (simp add: peek_def getitem_def py_index_in_range wf_cb_def)
qed

lemma retrieve_contents:
  assumes "wf_cb cb" "contents cb = x # xs"
  shows "retrieve cb = Inr (x, advance cb) \<and> wf_cb (advance cb) \<and> contents (advance cb) = xs \<and>
         bufferSize (advance cb) = bufferSize cb \<and> available (advance cb) = available cb - 1"
proof -
  have ne: "available cb \<noteq> 0" using contents_Nil_iff[OF assms(1)] assms(2) by auto
  have x: "x = buffer cb ! nat (nextRetrieveIndex cb)" using hd_contents[OF assms(1) ne] assms(2) by simp
  from retrieve_wf[OF assms(1) ne] obtain cb' where
    r: "retrieve cb = Inr (buffer cb ! nat (nextRetrieveIndex cb), cb')" and w: "wf_cb cb'"
    and b: "bufferSize cb' = bufferSize cb" and a: "available cb' = available cb - 1" by auto
  have adv: "cb' = advance cb" using r ne
    by (auto simp: retrieve_def advance_def Let_def split: sum.splits)
  have "contents cb = x # contents cb'" using contents_retrieve[OF assms(1) ne] r x by simp
  then show ?thesis using r w b a adv x assms(2) by simp
qed

lemma resync_loop_contents:
  "wf_cb cb \<Longrightarrow> contents cb = xs \<Longrightarrow>
   \<exists>cb'. resync_loop cb = Some (Inr (), cb') \<and> wf_cb cb' \<and> bufferSize cb' = bufferSize cb \<and>
         contents cb' = dropWhile (\<lambda>b. b \<noteq> 170) xs \<and> (xs \<noteq> [] \<and> hd xs = 170 \<longrightarrow> cb' = cb)"
proof (induction xs arbitrary: cb)
  case Nil
  then have "available cb = 0" using contents_Nil_iff by simp
  then have "resync_loop cb = Some (Inr (), cb)" by (subst resync_loop.simps) simp
  then show ?case using Nil by simp
next
  case (Cons x xs)
  have pos: "available cb > 0"
    using contents_Nil_iff[OF Cons.prems(1)] Cons.prems(2) available_bounds[OF Cons.prems(1)] by auto
  have pk: "peek cb = Inr x" using peek_contents[OF Cons.prems] .
  show ?case
  proof (cases "x = 170")
    case True
    have "resync_loop cb = Some (Inr (), cb)"
      by (subst resync_loop.simps) (simp add: pos pk peekForValue_def True)
    then show ?thesis using Cons.prems True by simp
  next
    case False
    from retrieve_contents[OF Cons.prems] have
      r: "retrieve cb = Inr (x, advance cb)" and w: "wf_cb (advance cb)"
      and c: "contents (advance cb) = xs" and b: "bufferSize (advance cb) = bufferSize cb" by simp_all
    from Cons.IH[OF w c] obtain cb' where
      l: "resync_loop (advance cb) = Some (Inr (), cb')" and w': "wf_cb cb'"
      and b': "bufferSize cb' = bufferSize (advance cb)"
      and c': "contents cb' = dropWhile (\<lambda>b. b \<noteq> 170) xs" by auto
    have "resync_loop cb = resync_loop (advance cb)"
      by (subst resync_loop.simps) (simp add: pos pk peekForValue_def False r)
    then show ?thesis using l w' b' b c' False by simp
  qed
qed

section \<open>Round trip through the inbound ring\<close>

lemma contents_fits: "wf_cb cb \<Longrightarrow> list_all fits_i (contents cb)"
proof -
  assume w: "wf_cb cb"
  have "fits_i (contents cb ! k)" if "k < length (contents cb)" for k
  proof -
    have k: "k < nat (available cb)" using that by (simp add: length_contents)
    let ?j = "(nextRetrieveIndex cb + int k) mod bufferSize cb"
    have "0 \<le> ?j" "?j < bufferSize cb" using w by (simp_all add: wf_cb_def)
    moreover have "int (length (buffer cb)) = bufferSize cb + 1" using w by (simp add: wf_cb_def)
    ultimately have "nat ?j < length (buffer cb)" by linarith
    then have "fits_i (buffer cb ! nat ?j)" using w by (simp add: wf_cb_def list_all_length)
    then show ?thesis using contents_nth[OF k] by simp
  qed
  then show ?thesis by (simp add: list_all_length)
qed

lemma run_appends_contents:
  "wf_cb cb \<Longrightarrow> list_all fits_i xs \<Longrightarrow> available cb + int (length xs) < bufferSize cb \<Longrightarrow>
   wf_cb (run cb (map Append xs)) \<and> contents (run cb (map Append xs)) = contents cb @ xs \<and>
   bufferSize (run cb (map Append xs)) = bufferSize cb"
proof (induction xs arbitrary: cb)
  case Nil
  then show ?case by (simp add: run_def)
next
  case (Cons x xs)
  from Cons.prems have fx: "fits_i x" and fxs: "list_all fits_i xs" by simp_all
  from append_cb_wf[OF Cons.prems(1) fx] obtain cb' where
    ap: "append_cb cb x = Inr cb'" and w': "wf_cb cb'" and b': "bufferSize cb' = bufferSize cb" by auto
  have room: "available cb < bufferSize cb - 1" using Cons.prems(3) by simp
  have c': "contents cb' = contents cb @ [x]" using contents_append[OF Cons.prems(1) fx room ap] .
  have a': "available cb' = available cb + 1" using available_append[OF Cons.prems(1) ap] room by simp
  have "available cb' + int (length xs) < bufferSize cb'" using a' b' Cons.prems(3) by simp
  from Cons.IH[OF w' fxs this] have
    "wf_cb (run cb' (map Append xs)) \<and> contents (run cb' (map Append xs)) = contents cb' @ xs \<and>
     bufferSize (run cb' (map Append xs)) = bufferSize cb'" .
  moreover have "run cb (map Append (x # xs)) = run cb' (map Append xs)" using ap by (simp add: run_def)
  ultimately show ?case using c' b' by simp
qed

lemma setitem_i_in_range:
  "j < length xs \<Longrightarrow> fits_i v \<Longrightarrow> setitem_i xs (int j) v = Inr (xs[j := v])"
  by (simp add: setitem_i_def py_index_in_range)

lemma read_loop_all:
  "wf_cb cb \<Longrightarrow> contents cb = xs \<Longrightarrow> j + length xs \<le> length pBuffer \<Longrightarrow>
   count + int (length xs) \<le> n + 1 \<Longrightarrow>
   \<exists>cb'. read_loop cb pBuffer n count (int j) =
           (Inr (int (j + length xs)), take j pBuffer @ xs @ drop (j + length xs) pBuffer, cb') \<and>
         wf_cb cb' \<and> contents cb' = [] \<and> bufferSize cb' = bufferSize cb"
proof (induction xs arbitrary: cb pBuffer count j)
  case Nil
  then have "available cb = 0" using contents_Nil_iff by simp
  then have "retrieve cb = Inl NoBytesAvailable" by (rule retrieve_empty)
  then have "read_loop cb pBuffer n count (int j) = (Inr (int j), pBuffer, cb)" by simp
  then show ?case using Nil by simp
next
  case (Cons x xs)
  have cn: "count \<le> n" using Cons.prems(4) by simp
  from retrieve_contents[OF Cons.prems(1,2)] have
    r: "retrieve cb = Inr (x, advance cb)" and w: "wf_cb (advance cb)"
    and c: "contents (advance cb) = xs" and b: "bufferSize (advance cb) = bufferSize cb" by simp_all
  have fx: "fits_i x" using contents_fits[OF Cons.prems(1)] Cons.prems(2) by simp
  have jl: "j < length pBuffer" using Cons.prems(3) by simp
  have s: "setitem_i pBuffer (int j) x = Inr (pBuffer[j := x])" using setitem_i_in_range[OF jl fx] .
  have l': "Suc j + length xs \<le> length (pBuffer[j := x])" using Cons.prems(3) by simp
  have k': "(count + 1) + int (length xs) \<le> n + 1" using Cons.prems(4) by simp
  from Cons.IH[OF w c l' k'] obtain cb' where
    rl: "read_loop (advance cb) (pBuffer[j := x]) n (count + 1) (int (Suc j)) =
       (Inr (int (Suc j + length xs)), take (Suc j) (pBuffer[j := x]) @ xs @ drop (Suc j + length xs) (pBuffer[j := x]), cb')"
    and w': "wf_cb cb'" and c': "contents cb' = []" and b': "bufferSize cb' = bufferSize (advance cb)" by blast
  have step: "read_loop cb pBuffer n count (int j) =
      read_loop (advance cb) (pBuffer[j := x]) n (count + 1) (int (Suc j))"
    using cn r s by (simp add: add.commute)
  have t: "take (Suc j) (pBuffer[j := x]) = take j pBuffer @ [x]"
    using jl by (simp add: take_Suc_conv_app_nth)
  have d: "drop (Suc j + length xs) (pBuffer[j := x]) = drop (Suc j + length xs) pBuffer" by simp
  show ?case using step rl t d w' c' b' b by simp
qed

lemma sum_loop_all:
  "i + k \<le> length buf \<Longrightarrow>
   sum_loop buf acc (int i) (int (i + k)) = (Inr (), acc + sum_list (take k (drop i buf)))"
proof (induction k arbitrary: i acc)
  case 0
  then show ?case by simp
next
  case (Suc k)
  have il: "i < length buf" using Suc.prems by simp
  have g: "getitem buf (int i) = Inr (buf ! i)" using il by (simp add: getitem_in_range)
  have "sum_loop buf acc (int i) (int (i + Suc k)) = sum_loop buf (acc + buf ! i) (int (Suc i)) (int (Suc i + k))"
    using g by (simp add: add.commute)
  also have "\<dots> = (Inr (), (acc + buf ! i) + sum_list (take k (drop (Suc i) buf)))"
    using Suc.IH[of "Suc i" "acc + buf ! i"] Suc.prems by simp
  also have "drop i buf = buf ! i # drop (Suc i) buf" using il by (simp add: Cons_nth_drop_Suc)
  then have "(acc + buf ! i) + sum_list (take k (drop (Suc i) buf)) = acc + sum_list (take (Suc k) (drop i buf))"
    by simp
  finally show ?case .
qed

lemma seven_elems:
  "7 \<le> length (xs::int list) \<Longrightarrow> \<exists>x0 x1 x2 x3 x4 x5 x6 r. xs = x0 # x1 # x2 # x3 # x4 # x5 # x6 # r"
  by (auto simp: Suc_le_length_iff eval_nat_numeral)

lemma fits_B_type: "fits_B (PacketTypeEnum_value ty)"
  by (cases ty) (simp_all add: fits_B_def)

lemma PacketTypeEnum_of_value: "PacketTypeEnum_of (PacketTypeEnum_value ty) = Inr ty"
  by (cases ty) (simp_all add: PacketTypeEnum_of_def)

lemma prepareHeader_bytes:
  assumes len: "7 \<le> length (outBuffer pt)" and d: "fits_B dest" and s: "fits_B (thisDeviceIdentifier pt)"
  shows "prepareHeader pt dest ty n =
     (Inr 7, pt\<lparr>outBuffer := header_bytes dest (thisDeviceIdentifier pt) ty n @ drop 7 (outBuffer pt)\<rparr>)"
proof -
  from seven_elems[OF len] obtain x0 x1 x2 x3 x4 x5 x6 r where
    xs: "outBuffer pt = x0 # x1 # x2 # x3 # x4 # x5 # x6 # r" by blast
  have hi: "fits_B ((n div 256) mod 256)" and lo: "fits_B (n mod 256)"
    by (simp_all add: fits_B_def) 
  have t: "fits_B (PacketTypeEnum_value ty)" by (rule fits_B_type)
  have c: "fits_B 170" "fits_B 85" by (simp_all add: fits_B_def)
  show ?thesis
    using d s hi lo t c
    by (simp add: prepareHeader_def store_out_def setitem_B_def py_index_def xs header_bytes_def
        and_255 drop_bit_eq_div)
qed

lemma retrieve_byteIn_step:
  assumes "wf_cb cb" "contents cb = x # xs"
  shows "byteIn p = Stream cb \<Longrightarrow> retrieve_byteIn p = Inr (x, p\<lparr>byteIn := Stream (advance cb)\<rparr>)"
  using retrieve_contents[OF assms] by (simp add: retrieve_byteIn_def stream_of_def)

lemma header_parse:
  assumes st: "byteIn pt = Stream cb" and w: "wf_cb cb"
    and c: "contents cb = 170 # 85 # d # s # t # m # l # rest"
    and ty: "PacketTypeEnum_of t = Inr ty"
  shows "\<exists>cb'. checkForPacketHeaderAvailable pt =
           Some (Inr (), pt\<lparr>byteIn := Stream cb',
                   pktChecksum := 170 + 85 + d + s + t + m + l,
                   destDeviceIdentifierFromReceivedPkt := d,
                   sourceDeviceIdentifierFromReceivedPkt := s,
                   pktType := ty,
                   numPktDataBytes := 256 * (m mod 256) + l mod 256,
                   numDataBytesPlusChecksumByte := 256 * (m mod 256) + l mod 256 + 1,
                   headerValid := True\<rparr>) \<and>
         wf_cb cb' \<and> contents cb' = rest \<and> bufferSize cb' = bufferSize cb"
proof -
  define c1 where "c1 = advance cb"
  define c2 where "c2 = advance c1"
  define c3 where "c3 = advance c2"
  define c4 where "c4 = advance c3"
  define c5 where "c5 = advance c4"
  define c6 where "c6 = advance c5"
  define c7 where "c7 = advance c6"
  note k0 = retrieve_contents[OF w c]
  have w1: "wf_cb c1" and q1: "contents c1 = 85 # d # s # t # m # l # rest" and b1: "bufferSize c1 = bufferSize cb"
    using k0 by (simp_all add: c1_def)
  note k1 = retrieve_contents[OF w1 q1]
  have w2: "wf_cb c2" and q2: "contents c2 = d # s # t # m # l # rest" and b2: "bufferSize c2 = bufferSize cb"
    using k1 b1 by (simp_all add: c2_def)
  note k2 = retrieve_contents[OF w2 q2]
  have w3: "wf_cb c3" and q3: "contents c3 = s # t # m # l # rest" and b3: "bufferSize c3 = bufferSize cb"
    using k2 b2 by (simp_all add: c3_def)
  note k3 = retrieve_contents[OF w3 q3]
  have w4: "wf_cb c4" and q4: "contents c4 = t # m # l # rest" and b4: "bufferSize c4 = bufferSize cb"
    using k3 b3 by (simp_all add: c4_def)
  note k4 = retrieve_contents[OF w4 q4]
  have w5: "wf_cb c5" and q5: "contents c5 = m # l # rest" and b5: "bufferSize c5 = bufferSize cb"
    using k4 b4 by (simp_all add: c5_def)
  note k5 = retrieve_contents[OF w5 q5]
  have w6: "wf_cb c6" and q6: "contents c6 = l # rest" and b6: "bufferSize c6 = bufferSize cb"
    using k5 b5 by (simp_all add: c6_def)
  note k6 = retrieve_contents[OF w6 q6]
  have w7: "wf_cb c7" and q7: "contents c7 = rest" and b7: "bufferSize c7 = bufferSize cb"
    using k6 b6 by (simp_all add: c7_def)
  have r0: "\<And>p. byteIn p = Stream cb \<Longrightarrow> retrieve_byteIn p = Inr (170, p\<lparr>byteIn := Stream c1\<rparr>)"
    unfolding c1_def by (rule retrieve_byteIn_step[OF w c])
  have r1: "\<And>p. byteIn p = Stream c1 \<Longrightarrow> retrieve_byteIn p = Inr (85, p\<lparr>byteIn := Stream c2\<rparr>)"
    unfolding c2_def by (rule retrieve_byteIn_step[OF w1 q1])
  have r2: "\<And>p. byteIn p = Stream c2 \<Longrightarrow> retrieve_byteIn p = Inr (d, p\<lparr>byteIn := Stream c3\<rparr>)"
    unfolding c3_def by (rule retrieve_byteIn_step[OF w2 q2])
  have r3: "\<And>p. byteIn p = Stream c3 \<Longrightarrow> retrieve_byteIn p = Inr (s, p\<lparr>byteIn := Stream c4\<rparr>)"
    unfolding c4_def by (rule retrieve_byteIn_step[OF w3 q3])
  have r4: "\<And>p. byteIn p = Stream c4 \<Longrightarrow> retrieve_byteIn p = Inr (t, p\<lparr>byteIn := Stream c5\<rparr>)"
    unfolding c5_def by (rule retrieve_byteIn_step[OF w4 q4])
  have r5: "\<And>p. byteIn p = Stream c5 \<Longrightarrow> retrieve_byteIn p = Inr (m, p\<lparr>byteIn := Stream c6\<rparr>)"
    unfolding c6_def by (rule retrieve_byteIn_step[OF w5 q5])
  have r6: "\<And>p. byteIn p = Stream c6 \<Longrightarrow> retrieve_byteIn p = Inr (l, p\<lparr>byteIn := Stream c7\<rparr>)"
    unfolding c7_def by (rule retrieve_byteIn_step[OF w6 q6])
  have av: "\<not> available cb < 7"
  proof -
    have "length (contents cb) = nat (available cb)" by (rule length_contents)
    then show ?thesis using c by simp
  qed
  have p: "parse_header_fields (pt\<lparr>byteIn := Stream c2, pktChecksum := 255\<rparr>) =
      (Inr (), pt\<lparr>byteIn := Stream c7,
                   pktChecksum := 170 + 85 + d + s + t + m + l,
                   destDeviceIdentifierFromReceivedPkt := d,
                   sourceDeviceIdentifierFromReceivedPkt := s,
                   pktType := ty,
                   numPktDataBytes := 256 * (m mod 256) + l mod 256,
                   numDataBytesPlusChecksumByte := 256 * (m mod 256) + l mod 256 + 1,
                   headerValid := True\<rparr>)"
    unfolding parse_header_fields_def Let_def
    by (simp add: r2 r3 r4 r5 r6 ty shift_and and_255)
  have "checkForPacketHeaderAvailable pt =
      Some (parse_header_fields (pt\<lparr>byteIn := Stream c2, pktChecksum := 255\<rparr>))"
    unfolding checkForPacketHeaderAvailable_def Let_def
    by (simp add: stream_of_def st av r0 r1)
  then show ?thesis using p w7 q7 b7 by auto
qed

lemma fits_B_i: "fits_B v \<Longrightarrow> fits_i v"
  by (simp add: fits_B_def fits_i_def)

lemma list_all_fits_B_i: "list_all fits_B xs \<Longrightarrow> list_all fits_i xs"
  by (induction xs) (simp_all add: fits_B_i)

lemma available_contents: "wf_cb cb \<Longrightarrow> available cb = int (length (contents cb))"
  using available_bounds[of cb] by (simp add: length_contents)

lemma body_ready:
  assumes st: "byteIn pt = Stream cb" and w: "wf_cb cb"
    and c: "contents cb = payload @ [chk]"
    and n: "numDataBytesPlusChecksumByte pt = int (length payload) + 1"
    and ib: "length payload < length (inBuffer pt)"
    and d: "destDeviceIdentifierFromReceivedPkt pt = thisDeviceIdentifier pt"
    and ck: "(pktChecksum pt + sum_list payload + chk) mod 256 = 0"
  shows "\<exists>cb'. packet_body_ready pt =
       (Inr True, pt\<lparr>headerValid := False,
                     inBuffer := payload @ [chk] @ drop (length payload + 1) (inBuffer pt),
                     byteIn := Stream cb',
                     pktChecksum := pktChecksum pt + sum_list payload + chk\<rparr>) \<and>
       contents cb' = []"
proof -
  let ?xs = "payload @ [chk]"
  have av: "available cb = int (length payload) + 1" using available_contents[OF w] c by simp
  have l1: "0 + length ?xs \<le> length (inBuffer pt)" using ib by simp
  have l2: "0 + int (length ?xs) \<le> (int (length payload) + 1) + 1" by simp
  from read_loop_all[OF w c l1 l2] obtain cb' where
    rl: "read_loop cb (inBuffer pt) (int (length payload) + 1) 0 (int 0) =
       (Inr (int (0 + length ?xs)), take 0 (inBuffer pt) @ ?xs @ drop (0 + length ?xs) (inBuffer pt), cb')"
    and c': "contents cb' = []" by blast
  define ib where "ib = payload @ [chk] @ drop (length payload + 1) (inBuffer pt)"
  have rd: "read cb (inBuffer pt) 0 (int (length payload) + 1) = (Inr (int (length payload) + 1), ib, cb')"
    using rl by (simp add: read_def ib_def)
  have "0 + (length payload + 1) \<le> length ib" using ib by (simp add: ib_def)
  from sum_loop_all[OF this, of "pktChecksum pt"] have
    sl: "sum_loop ib (pktChecksum pt) 0 (int (length payload) + 1) =
       (Inr (), pktChecksum pt + sum_list payload + chk)" by (simp add: add.commute ib_def)
  have "packet_body_ready pt =
       (Inr True, pt\<lparr>headerValid := False, inBuffer := ib, byteIn := Stream cb',
                     pktChecksum := pktChecksum pt + sum_list payload + chk\<rparr>)"
    unfolding packet_body_ready_def Let_def
    by (simp add: stream_of_def st av n rd d sl and_255 ck del: sum_loop.simps)
  then show ?thesis using c' unfolding ib_def by blast
qed

text \<open>
  Claim C5 (round trip). The receiver's inbound ring is empty and well formed and no
  header is held. The sender's \<open>prepareHeader\<close> is given the receiver's identifier as the
  destination, any packet type of the enumeration and the payload length; the seven
  header bytes it wrote, the payload bytes and a checksum byte that makes the sum of all
  frame bytes 0 modulo 256 are appended to the ring. The frame fits: its
  \<open>length payload + 8\<close> bytes are fewer than the ring's \<open>bufferSize\<close> (the ring holds at most
  \<open>bufferSize - 1\<close> values) and payload and checksum fit the receiver's \<open>inBuffer\<close>. Then
  one call of \<open>checkForPacketReady\<close> returns true, and the received packet type, payload
  length, destination and source are the values given to \<open>prepareHeader\<close>; the payload
  is at the start of \<open>inBuffer\<close>.
\<close>

theorem header_payload_checksum_round_trip:
  assumes st: "byteIn receiver = Stream cb" and w: "wf_cb cb" and e: "available cb = 0"
    and hv: "\<not> headerValid receiver"
    and ob: "7 \<le> length (outBuffer sender)"
    and ib: "length payload < length (inBuffer receiver)"
    and fr: "fits_B (thisDeviceIdentifier receiver)" and fs: "fits_B (thisDeviceIdentifier sender)"
    and fp: "list_all fits_B payload" and fc: "fits_B chk"
    and room: "int (length payload) + 8 < bufferSize cb"
    and n16: "length payload < 65536"
    and ck: "(sum_list (take 7 (outBuffer (snd (prepareHeader sender (thisDeviceIdentifier receiver) ty
                 (int (length payload)))))) + sum_list payload + chk) mod 256 = 0"
  shows "\<exists>sender' receiver'.
     prepareHeader sender (thisDeviceIdentifier receiver) ty (int (length payload)) = (Inr 7, sender') \<and>
     checkForPacketReady
       (receiver\<lparr>byteIn := Stream (run cb (map Append (take 7 (outBuffer sender') @ payload @ [chk])))\<rparr>)
       = Some (Inr True, receiver') \<and>
     getPktType receiver' = ty \<and>
     numPktDataBytes receiver' = int (length payload) \<and>
     destDeviceIdentifierFromReceivedPkt receiver' = thisDeviceIdentifier receiver \<and>
     sourceDeviceIdentifierFromReceivedPkt receiver' = thisDeviceIdentifier sender \<and>
     take (length payload) (inBuffer receiver') = payload"
proof -
  let ?n = "int (length payload)"
  let ?dest = "thisDeviceIdentifier receiver"
  let ?src = "thisDeviceIdentifier sender"
  let ?hdr = "header_bytes ?dest ?src ty ?n"
  define sender' where "sender' = sender\<lparr>outBuffer := ?hdr @ drop 7 (outBuffer sender)\<rparr>"
  have ph: "prepareHeader sender ?dest ty ?n = (Inr 7, sender')"
    unfolding sender'_def by (rule prepareHeader_bytes[OF ob fr fs])
  have t7: "take 7 (outBuffer sender') = ?hdr" by (simp add: sender'_def header_bytes_def)
  have hsum: "sum_list ?hdr = 170 + 85 + ?dest + ?src + PacketTypeEnum_value ty + (?n div 256) mod 256 + ?n mod 256"
    by (simp add: header_bytes_def)
  let ?frame = "?hdr @ payload @ [chk]"
  have "fits_B 170" "fits_B 85" "fits_B ((?n div 256) mod 256)" "fits_B (?n mod 256)"
    by (simp_all add: fits_B_def)
  then have fh: "list_all fits_i ?hdr"
    using fr fs fits_B_type[of ty] by (simp add: header_bytes_def fits_B_i)
  have ff: "list_all fits_i ?frame" using fh list_all_fits_B_i[OF fp] fits_B_i[OF fc] by simp
  have c0: "contents cb = []" using contents_Nil_iff[OF w] e by simp
  have "available cb + int (length ?frame) < bufferSize cb" using e room by (simp add: header_bytes_def)
  from run_appends_contents[OF w ff this] have
    w1: "wf_cb (run cb (map Append ?frame))" and c1: "contents (run cb (map Append ?frame)) = ?frame"
    using c0 by simp_all
  let ?cb1 = "run cb (map Append ?frame)"
  let ?r1 = "receiver\<lparr>byteIn := Stream ?cb1\<rparr>"
  have st1: "byteIn ?r1 = Stream ?cb1" by simp
  have c1': "contents ?cb1 = 170 # 85 # ?dest # ?src # PacketTypeEnum_value ty # ((?n div 256) mod 256) # (?n mod 256) # (payload @ [chk])"
    using c1 by (simp add: header_bytes_def)
  have nn: "256 * (((?n div 256) mod 256) mod 256) + (?n mod 256) mod 256 = ?n"
  proof -
    have "?n div 256 < 256" using n16 by simp
    moreover have "0 \<le> ?n div 256" by simp
    ultimately have "(?n div 256) mod 256 = ?n div 256" by simp
    then show ?thesis by simp
  qed
  from header_parse[OF st1 w1 c1' PacketTypeEnum_of_value] obtain cb2 where
    hp: "checkForPacketHeaderAvailable ?r1 =
           Some (Inr (), ?r1\<lparr>byteIn := Stream cb2,
                   pktChecksum := 170 + 85 + ?dest + ?src + PacketTypeEnum_value ty + (?n div 256) mod 256 + ?n mod 256,
                   destDeviceIdentifierFromReceivedPkt := ?dest,
                   sourceDeviceIdentifierFromReceivedPkt := ?src,
                   pktType := ty,
                   numPktDataBytes := ?n,
                   numDataBytesPlusChecksumByte := ?n + 1,
                   headerValid := True\<rparr>)"
    and w2: "wf_cb cb2" and c2: "contents cb2 = payload @ [chk]"
    unfolding nn by blast
  define r2 where "r2 = ?r1\<lparr>byteIn := Stream cb2,
                   pktChecksum := 170 + 85 + ?dest + ?src + PacketTypeEnum_value ty + (?n div 256) mod 256 + ?n mod 256,
                   destDeviceIdentifierFromReceivedPkt := ?dest,
                   sourceDeviceIdentifierFromReceivedPkt := ?src,
                   pktType := ty,
                   numPktDataBytes := ?n,
                   numDataBytesPlusChecksumByte := ?n + 1,
                   headerValid := True\<rparr>"
  have f2: "byteIn r2 = Stream cb2" "numDataBytesPlusChecksumByte r2 = ?n + 1"
    "length payload < length (inBuffer r2)"
    "destDeviceIdentifierFromReceivedPkt r2 = thisDeviceIdentifier r2"
    "headerValid r2"
    using ib by (simp_all add: r2_def)
  have ck2: "(pktChecksum r2 + sum_list payload + chk) mod 256 = 0"
    using ck ph t7 hsum by (simp add: r2_def)
  from body_ready[OF f2(1) w2 c2 f2(2) f2(3) f2(4) ck2] obtain cb3 where
    br: "packet_body_ready r2 =
       (Inr True, r2\<lparr>headerValid := False,
                     inBuffer := payload @ [chk] @ drop (length payload + 1) (inBuffer r2),
                     byteIn := Stream cb3,
                     pktChecksum := pktChecksum r2 + sum_list payload + chk\<rparr>)" by blast
  define r3 where "r3 = r2\<lparr>headerValid := False,
                     inBuffer := payload @ [chk] @ drop (length payload + 1) (inBuffer r2),
                     byteIn := Stream cb3,
                     pktChecksum := pktChecksum r2 + sum_list payload + chk\<rparr>"
  have cr: "checkForPacketReady ?r1 = Some (Inr True, r3)"
    unfolding checkForPacketReady_def
    using hv hp[folded r2_def] f2(5) br[folded r3_def] by simp
  have fields: "getPktType r3 = ty" "numPktDataBytes r3 = ?n"
    "destDeviceIdentifierFromReceivedPkt r3 = ?dest"
    "sourceDeviceIdentifierFromReceivedPkt r3 = ?src"
    "take (length payload) (inBuffer r3) = payload"
    by (simp_all add: r3_def r2_def getPktType_def)
  show ?thesis using ph cr[folded t7] fields t7 by auto
qed

theorem header_payload_checksum_round_trip_witness:
  "byteIn (setStreams (PacketTool_init 0) (Stream (CircularBuffer_init 50)) None) = Stream (CircularBuffer_init 50) \<and>
   wf_cb (CircularBuffer_init 50) \<and>
   available (CircularBuffer_init 50) = 0 \<and>
   \<not> headerValid (setStreams (PacketTool_init 0) (Stream (CircularBuffer_init 50)) None) \<and>
   7 \<le> length (outBuffer (PacketTool_init 2)) \<and>
   length [1, 2, 3 :: int] < length (inBuffer (setStreams (PacketTool_init 0) (Stream (CircularBuffer_init 50)) None)) \<and>
   list_all fits_B [1, 2, 3] \<and> fits_B 244 \<and>
   int (length [1, 2, 3 :: int]) + 8 < bufferSize (CircularBuffer_init 50) \<and>
   (\<exists>sender' receiver'.
     prepareHeader (PacketTool_init 2) 0 GET_DEVICE_INFO 3 = (Inr 7, sender') \<and>
     take 7 (outBuffer sender') = [170, 85, 0, 2, 2, 0, 3] \<and>
     checkForPacketReady
       ((setStreams (PacketTool_init 0) (Stream (CircularBuffer_init 50)) None)
          \<lparr>byteIn := Stream (run (CircularBuffer_init 50) (map Append ([170, 85, 0, 2, 2, 0, 3] @ [1, 2, 3] @ [244])))\<rparr>)
       = Some (Inr True, receiver') \<and>
     getPktType receiver' = GET_DEVICE_INFO \<and>
     numPktDataBytes receiver' = 3 \<and>
     destDeviceIdentifierFromReceivedPkt receiver' = 0 \<and>
     sourceDeviceIdentifierFromReceivedPkt receiver' = 2 \<and>
     take 3 (inBuffer receiver') = [1, 2, 3])"
proof -
  let ?cb = "CircularBuffer_init 50"
  let ?rc = "setStreams (PacketTool_init 0) (Stream ?cb) None"
  let ?sn = "PacketTool_init 2"
  let ?pl = "[1, 2, 3 :: int]"
  have id: "thisDeviceIdentifier ?rc = 0" "thisDeviceIdentifier ?sn = 2"
    by (simp_all add: setStreams_def PacketTool_init_def)
  have h1: "byteIn ?rc = Stream ?cb" by (simp add: setStreams_def)
  have h2: "wf_cb ?cb" by (simp add: wf_cb_init)
  have h3: "available ?cb = 0" by (simp add: available_def CircularBuffer_init_def)
  have h4: "\<not> headerValid ?rc" by (simp add: setStreams_def PacketTool_init_def)
  have h5: "7 \<le> length (outBuffer ?sn)" by (simp add: PacketTool_init_def OUT_BUFFER_SIZE_def)
  have h6: "length ?pl < length (inBuffer ?rc)"
    by (simp add: setStreams_def PacketTool_init_def IN_BUFFER_SIZE_def)
  have h7: "fits_B (thisDeviceIdentifier ?rc)" and h8: "fits_B (thisDeviceIdentifier ?sn)"
    by (simp_all add: id fits_B_def)
  have h9: "list_all fits_B ?pl" and h10: "fits_B 244" by (simp_all add: fits_B_def)
  have h11: "int (length ?pl) + 8 < bufferSize ?cb" by (simp add: CircularBuffer_init_def)
  have h12: "length ?pl < 65536" by simp
  have ph: "prepareHeader ?sn (thisDeviceIdentifier ?rc) GET_DEVICE_INFO (int (length ?pl)) =
      (Inr 7, ?sn\<lparr>outBuffer := header_bytes (thisDeviceIdentifier ?rc) (thisDeviceIdentifier ?sn) GET_DEVICE_INFO (int (length ?pl)) @ drop 7 (outBuffer ?sn)\<rparr>)"
    by (rule prepareHeader_bytes[OF h5 h7 h8])
  have hb: "header_bytes (thisDeviceIdentifier ?rc) (thisDeviceIdentifier ?sn) GET_DEVICE_INFO (int (length ?pl)) = [170, 85, 0, 2, 2, 0, 3]"
    by (simp add: id header_bytes_def)
  have h13: "(sum_list (take 7 (outBuffer (snd (prepareHeader ?sn (thisDeviceIdentifier ?rc) GET_DEVICE_INFO
                 (int (length ?pl)))))) + sum_list ?pl + 244) mod 256 = 0"
    using ph hb by simp
  from header_payload_checksum_round_trip[OF h1 h2 h3 h4 h5 h6 h7 h8 h9 h10 h11 h12 h13]
  obtain sender' receiver' where
    a: "prepareHeader ?sn (thisDeviceIdentifier ?rc) GET_DEVICE_INFO (int (length ?pl)) = (Inr 7, sender')"
    and b: "checkForPacketReady (?rc\<lparr>byteIn := Stream (run ?cb (map Append (take 7 (outBuffer sender') @ ?pl @ [244])))\<rparr>)
       = Some (Inr True, receiver')"
    and c: "getPktType receiver' = GET_DEVICE_INFO" "numPktDataBytes receiver' = int (length ?pl)"
      "destDeviceIdentifierFromReceivedPkt receiver' = thisDeviceIdentifier ?rc"
      "sourceDeviceIdentifierFromReceivedPkt receiver' = thisDeviceIdentifier ?sn"
      "take (length ?pl) (inBuffer receiver') = ?pl" by blast
  have t: "take 7 (outBuffer sender') = [170, 85, 0, 2, 2, 0, 3]" using a ph hb by simp
  have concl: "\<exists>sender' receiver'.
     prepareHeader ?sn 0 GET_DEVICE_INFO 3 = (Inr 7, sender') \<and>
     take 7 (outBuffer sender') = [170, 85, 0, 2, 2, 0, 3] \<and>
     checkForPacketReady
       (?rc\<lparr>byteIn := Stream (run ?cb (map Append ([170, 85, 0, 2, 2, 0, 3] @ [1, 2, 3] @ [244])))\<rparr>)
       = Some (Inr True, receiver') \<and>
     getPktType receiver' = GET_DEVICE_INFO \<and>
     numPktDataBytes receiver' = 3 \<and>
     destDeviceIdentifierFromReceivedPkt receiver' = 0 \<and>
     sourceDeviceIdentifierFromReceivedPkt receiver' = 2 \<and>
     take 3 (inBuffer receiver') = [1, 2, 3]"
    using a b c t id by (rule_tac x = sender' in exI, rule_tac x = receiver' in exI) (simp add: numeral_3_eq_3)
  show ?thesis by (intro conjI h1 h2 h3 h4 h5 h6 h9 h10 h11 concl)
qed

section \<open>Resynchronisation on a sync-byte mismatch\<close>

lemma resync_fields:
  assumes "byteIn pt = Stream cb" and "wf_cb cb"
  shows "\<exists>pt' cb'. resync pt = Some (Inr (), pt') \<and> resyncCount pt' = resyncCount pt + 1 \<and>
           byteIn pt' = Stream cb' \<and> wf_cb cb' \<and> headerValid pt' = headerValid pt \<and>
           contents cb' = dropWhile (\<lambda>b. b \<noteq> 170) (contents cb)"
proof -
  from resync_loop_contents[OF assms(2) refl] obtain cb' where
    l: "resync_loop cb = Some (Inr (), cb')" and w: "wf_cb cb'"
    and c: "contents cb' = dropWhile (\<lambda>b. b \<noteq> 170) (contents cb)" by auto
  have "resync pt = Some (Inr (), pt\<lparr>resyncCount := resyncCount pt + 1, byteIn := Stream cb'\<rparr>)"
    using assms(1) l by (simp add: resync_def stream_of_def Let_def)
  then show ?thesis using w c by auto
qed

lemma first_sync_mismatch:
  assumes st: "byteIn pt = Stream cb" and w: "wf_cb cb"
    and c: "contents cb = b # rest" and len: "7 \<le> length (contents cb)" and ne: "b \<noteq> 170"
  shows "\<exists>pt' cb'. checkForPacketHeaderAvailable pt = Some (Inr (), pt') \<and>
           resyncCount pt' = resyncCount pt + 1 \<and> byteIn pt' = Stream cb' \<and> wf_cb cb' \<and>
           headerValid pt' = headerValid pt \<and>
           contents cb' = dropWhile (\<lambda>b. b \<noteq> 170) rest"
proof -
  have av: "\<not> available cb < 7" using len length_contents[of cb] by simp
  from retrieve_contents[OF w c] have w1: "wf_cb (advance cb)" and c1: "contents (advance cb) = rest" by simp_all
  have r0: "retrieve_byteIn (pt\<lparr>pktChecksum := 0\<rparr>) = Inr (b, pt\<lparr>pktChecksum := 0, byteIn := Stream (advance cb)\<rparr>)"
    using retrieve_byteIn_step[OF w c, of "pt\<lparr>pktChecksum := 0\<rparr>"] st by simp
  let ?p = "pt\<lparr>pktChecksum := 0, byteIn := Stream (advance cb)\<rparr>"
  have e: "checkForPacketHeaderAvailable pt = resync ?p"
    unfolding checkForPacketHeaderAvailable_def Let_def
    using st av r0 ne by (simp add: stream_of_def)
  have "byteIn ?p = Stream (advance cb)" by simp
  from resync_fields[OF this w1] show ?thesis using e c1 by auto
qed

lemma second_sync_mismatch:
  assumes st: "byteIn pt = Stream cb" and w: "wf_cb cb"
    and c: "contents cb = 170 # b # rest" and len: "7 \<le> length (contents cb)" and ne: "b \<noteq> 85"
  shows "\<exists>pt' cb'. checkForPacketHeaderAvailable pt = Some (Inr (), pt') \<and>
           resyncCount pt' = resyncCount pt + 1 \<and> byteIn pt' = Stream cb' \<and> wf_cb cb' \<and>
           headerValid pt' = headerValid pt \<and>
           contents cb' = dropWhile (\<lambda>b. b \<noteq> 170) rest"
proof -
  have av: "\<not> available cb < 7" using len length_contents[of cb] by simp
  from retrieve_contents[OF w c] have w1: "wf_cb (advance cb)" and c1: "contents (advance cb) = b # rest" by simp_all
  from retrieve_contents[OF w1 c1] have w2: "wf_cb (advance (advance cb))"
    and c2: "contents (advance (advance cb)) = rest" by simp_all
  have r0: "\<And>p. byteIn p = Stream cb \<Longrightarrow> retrieve_byteIn p = Inr (170, p\<lparr>byteIn := Stream (advance cb)\<rparr>)"
    by (rule retrieve_byteIn_step[OF w c])
  have r1: "\<And>p. byteIn p = Stream (advance cb) \<Longrightarrow> retrieve_byteIn p = Inr (b, p\<lparr>byteIn := Stream (advance (advance cb))\<rparr>)"
    by (rule retrieve_byteIn_step[OF w1 c1])
  let ?p = "pt\<lparr>pktChecksum := 170, byteIn := Stream (advance (advance cb))\<rparr>"
  have e: "checkForPacketHeaderAvailable pt = resync ?p"
    unfolding checkForPacketHeaderAvailable_def Let_def
    using st av ne by (simp add: stream_of_def r0 r1)
  have "byteIn ?p = Stream (advance (advance cb))" by simp
  from resync_fields[OF this w2] show ?thesis using e c2 by auto
qed

text \<open>
  Claim C7. \<open>resync\<close> adds exactly one to \<open>resyncCount\<close> and leaves in the inbound buffer
  the unread bytes from the first 0xAA on (nothing when there is none): what it removed
  is the longest prefix free of 0xAA, so afterwards the buffer is empty or its next byte
  is 0xAA. A front byte 0xAA is not consumed: the buffer is then left as it was. And a
  header search that meets a wrong first or second sync byte does just this to the bytes
  after the ones it read: the counter goes up by one and the bytes before the next 0xAA
  are dropped.
\<close>

theorem resync_on_sync_mismatch:
  assumes "byteIn pt = Stream cb" and "wf_cb cb"
  shows "(\<exists>cb'. resync pt = Some (Inr (), pt\<lparr>resyncCount := resyncCount pt + 1, byteIn := Stream cb'\<rparr>) \<and>
           wf_cb cb' \<and>
           contents cb' = dropWhile (\<lambda>b. b \<noteq> 170) (contents cb) \<and>
           (available cb' = 0 \<or> peek cb' = Inr 170) \<and>
           (peek cb = Inr 170 \<longrightarrow> cb' = cb)) \<and>
         (\<forall>b rest. contents cb = b # rest \<and> 7 \<le> length (contents cb) \<and> b \<noteq> 170 \<longrightarrow>
           (\<exists>pt' cb'. checkForPacketHeaderAvailable pt = Some (Inr (), pt') \<and>
              resyncCount pt' = resyncCount pt + 1 \<and> byteIn pt' = Stream cb' \<and>
              headerValid pt' = headerValid pt \<and>
              contents cb' = dropWhile (\<lambda>b. b \<noteq> 170) rest)) \<and>
         (\<forall>b rest. contents cb = 170 # b # rest \<and> 7 \<le> length (contents cb) \<and> b \<noteq> 85 \<longrightarrow>
           (\<exists>pt' cb'. checkForPacketHeaderAvailable pt = Some (Inr (), pt') \<and>
              resyncCount pt' = resyncCount pt + 1 \<and> byteIn pt' = Stream cb' \<and>
              headerValid pt' = headerValid pt \<and>
              contents cb' = dropWhile (\<lambda>b. b \<noteq> 170) rest))"
proof (intro conjI allI impI)
  from resync_loop_contents[OF assms(2) refl] obtain cb' where
    l: "resync_loop cb = Some (Inr (), cb')" and w: "wf_cb cb'"
    and c: "contents cb' = dropWhile (\<lambda>b. b \<noteq> 170) (contents cb)"
    and k: "contents cb \<noteq> [] \<and> hd (contents cb) = 170 \<longrightarrow> cb' = cb" by auto
  have r: "resync pt = Some (Inr (), pt\<lparr>resyncCount := resyncCount pt + 1, byteIn := Stream cb'\<rparr>)"
    using assms(1) l by (simp add: resync_def stream_of_def Let_def)
  have f: "available cb' = 0 \<or> peek cb' = Inr 170"
  proof (cases "contents cb'")
    case Nil
    then show ?thesis using contents_Nil_iff[OF w] by simp
  next
    case (Cons y ys)
    then have "y = 170" using c hd_dropWhile[of "\<lambda>b. b \<noteq> 170" "contents cb"]
      by (metis list.sel(1) list.distinct(1))
    then show ?thesis using peek_contents[OF w Cons] by simp
  qed
  have u: "peek cb = Inr 170 \<longrightarrow> cb' = cb"
  proof
    assume p: "peek cb = Inr 170"
    then have ne: "available cb \<noteq> 0" by (auto simp: peek_def split: if_splits)
    then obtain x xs where xs: "contents cb = x # xs"
      using contents_Nil_iff[OF assms(2)] by (cases "contents cb") auto
    then have "x = 170" using peek_contents[OF assms(2) xs] p by simp
    then show "cb' = cb" using k xs by simp
  qed
  show "\<exists>cb'. resync pt = Some (Inr (), pt\<lparr>resyncCount := resyncCount pt + 1, byteIn := Stream cb'\<rparr>) \<and>
           wf_cb cb' \<and>
           contents cb' = dropWhile (\<lambda>b. b \<noteq> 170) (contents cb) \<and>
           (available cb' = 0 \<or> peek cb' = Inr 170) \<and>
           (peek cb = Inr 170 \<longrightarrow> cb' = cb)"
    using r w c f u by blast
next
  fix b rest
  assume a: "contents cb = b # rest \<and> 7 \<le> length (contents cb) \<and> b \<noteq> 170"
  then have a1: "contents cb = b # rest" and a2: "7 \<le> length (contents cb)" and a3: "b \<noteq> 170"
    by blast+
  from first_sync_mismatch[OF assms a1 a2 a3]
  show "\<exists>pt' cb'. checkForPacketHeaderAvailable pt = Some (Inr (), pt') \<and>
              resyncCount pt' = resyncCount pt + 1 \<and> byteIn pt' = Stream cb' \<and>
              headerValid pt' = headerValid pt \<and>
              contents cb' = dropWhile (\<lambda>b. b \<noteq> 170) rest" by blast
next
  fix b rest
  assume a: "contents cb = 170 # b # rest \<and> 7 \<le> length (contents cb) \<and> b \<noteq> 85"
  then have a1: "contents cb = 170 # b # rest" and a2: "7 \<le> length (contents cb)" and a3: "b \<noteq> 85"
    by blast+
  from second_sync_mismatch[OF assms a1 a2 a3]
  show "\<exists>pt' cb'. checkForPacketHeaderAvailable pt = Some (Inr (), pt') \<and>
              resyncCount pt' = resyncCount pt + 1 \<and> byteIn pt' = Stream cb' \<and>
              headerValid pt' = headerValid pt \<and>
              contents cb' = dropWhile (\<lambda>b. b \<noteq> 170) rest" by blast
qed

theorem resync_on_sync_mismatch_witness:
  "byteIn (setStreams (PacketTool_init 0) (Stream (run (CircularBuffer_init 50) (map Append [1, 2, 170, 85, 0, 2, 2, 0]))) None)
     = Stream (run (CircularBuffer_init 50) (map Append [1, 2, 170, 85, 0, 2, 2, 0])) \<and>
   wf_cb (run (CircularBuffer_init 50) (map Append [1, 2, 170, 85, 0, 2, 2, 0])) \<and>
   (\<exists>cb'. resync (setStreams (PacketTool_init 0) (Stream (run (CircularBuffer_init 50) (map Append [1, 2, 170, 85, 0, 2, 2, 0]))) None)
            = Some (Inr (), (setStreams (PacketTool_init 0) (Stream (run (CircularBuffer_init 50) (map Append [1, 2, 170, 85, 0, 2, 2, 0]))) None)
                 \<lparr>resyncCount := 1, byteIn := Stream cb'\<rparr>) \<and>
          contents cb' = [170, 85, 0, 2, 2, 0]) \<and>
   (\<exists>pt' cb'. checkForPacketHeaderAvailable
            (setStreams (PacketTool_init 0) (Stream (run (CircularBuffer_init 50) (map Append [1, 2, 170, 85, 0, 2, 2, 0]))) None)
            = Some (Inr (), pt') \<and>
          resyncCount pt' = 1 \<and> byteIn pt' = Stream cb' \<and> contents cb' = [170, 85, 0, 2, 2, 0])"
proof -
  let ?cb = "run (CircularBuffer_init 50) (map Append [1, 2, 170, 85, 0, 2, 2, 0])"
  let ?pt = "setStreams (PacketTool_init 0) (Stream ?cb) None"
  have a: "byteIn ?pt = Stream ?cb" by (simp add: setStreams_def)
  have b: "wf_cb ?cb" by (simp add: run_wf wf_cb_init)
  have c: "contents ?cb = [1, 2, 170, 85, 0, 2, 2, 0]" by code_simp
  have d: "resyncCount ?pt = 0" by (simp add: setStreams_def PacketTool_init_def)
  note t = resync_on_sync_mismatch[OF a b]
  have p1: "\<exists>cb'. resync ?pt = Some (Inr (), ?pt\<lparr>resyncCount := 1, byteIn := Stream cb'\<rparr>) \<and>
          contents cb' = [170, 85, 0, 2, 2, 0]"
    using t c d by auto
  have "contents ?cb = 1 # [2, 170, 85, 0, 2, 2, 0] \<and> 7 \<le> length (contents ?cb) \<and> (1::int) \<noteq> 170"
    using c by simp
  with t have "\<exists>pt' cb'. checkForPacketHeaderAvailable ?pt = Some (Inr (), pt') \<and>
              resyncCount pt' = resyncCount ?pt + 1 \<and> byteIn pt' = Stream cb' \<and>
              headerValid pt' = headerValid ?pt \<and>
              contents cb' = dropWhile (\<lambda>b. b \<noteq> 170) [2, 170, 85, 0, 2, 2, 0]" by blast
  then have p2: "\<exists>pt' cb'. checkForPacketHeaderAvailable ?pt = Some (Inr (), pt') \<and>
          resyncCount pt' = 1 \<and> byteIn pt' = Stream cb' \<and> contents cb' = [170, 85, 0, 2, 2, 0]"
    using d by auto
  show ?thesis by (intro conjI a b p1 p2)
qed

section \<open>Behaviour at concrete inputs\<close>

text \<open>
  Claim C1, at a concrete input. With capacity 3, after three appends and no retrieve
  \<open>available\<close> is 0 (not 3) and \<open>retrieve\<close> raises; after a fourth append only the
  value 4 can be retrieved (not 2, 3, 4).
\<close>

theorem full_ring_reports_empty:
  "available (run (CircularBuffer_init 3) (map Append [1, 2, 3])) = 0 \<and>
   retrieve (run (CircularBuffer_init 3) (map Append [1, 2, 3])) = Inl NoBytesAvailable \<and>
   available (run (CircularBuffer_init 3) (map Append [1, 2, 3, 4])) = 1 \<and>
   retrieve_all 4 (run (CircularBuffer_init 3) (map Append [1, 2, 3, 4])) = [4]"
  by code_simp

text \<open>
  Claim C6, at a concrete input. With four values buffered, \<open>read\<close> with offset 1 and a
  limit of 2 stores three values and returns the index 4, not the count; into an array
  too short for what is available it raises IndexError.
\<close>

theorem read_takes_one_more:
  "fst (read (run (CircularBuffer_init 5) (map Append [1, 2, 3, 4])) [0, 0, 0, 0, 0, 0] 1 2) = Inr 4 \<and>
   fst (snd (read (run (CircularBuffer_init 5) (map Append [1, 2, 3, 4])) [0, 0, 0, 0, 0, 0] 1 2))
     = [0, 1, 2, 3, 0, 0] \<and>
   contents (snd (snd (read (run (CircularBuffer_init 5) (map Append [1, 2, 3, 4])) [0, 0, 0, 0, 0, 0] 1 2)))
     = [4] \<and>
   fst (read (run (CircularBuffer_init 5) (map Append [1, 2, 3, 4])) [0, 0] 0 5) = Inl IndexError"
  by code_simp

text \<open>
  Claim C2, at a concrete input. Two frames with an empty payload lie back to back in the
  inbound ring. The first call of \<open>checkForPacketReady\<close> accepts the first frame, whose
  \<open>numDataBytesPlusChecksumByte\<close> is 1, and takes two bytes after the header: the sync byte
  0xAA of the second frame is gone.
\<close>

theorem packet_ready_eats_next_sync_byte:
  "map_option (\<lambda>(r, pt). (r, numDataBytesPlusChecksumByte pt, map_sum id contents (stream_of pt)))
     (checkForPacketReady
        (setStreams (PacketTool_init 0)
           (Stream (run (CircularBuffer_init 50)
              (map Append ([170, 85, 0, 2, 2, 0, 0, 253] @ [170, 85, 0, 2, 2, 0, 0, 253])))) None))
   = Some (Inr True, 1, Inr [85, 0, 2, 2, 0, 0, 253])"
  by code_simp

text \<open>
  Claim C3, at a concrete input. A frame with a correct checksum whose type byte is 7, a
  code of no enumeration member: \<open>checkForPacketReady\<close> raises ValueError.
\<close>

theorem unknown_type_code_raises:
  "map_option fst
     (checkForPacketReady
        (setStreams (PacketTool_init 0)
           (Stream (run (CircularBuffer_init 50) (map Append [170, 85, 0, 2, 7, 0, 0, 248]))) None))
   = Some (Inl ValueError)"
  by code_simp

text \<open>
  Claim C4, at a concrete input. Header, text and terminator of this message sum to 0
  modulo 256; the checksum value computed is 256, and storing it into the byte array
  raises OverflowError, so no frame is sent.
\<close>

theorem sendString_checksum_overflow:
  "fst (sendString (setStreams (PacketTool_init 0) PyNone (Some (Socket (\<lambda>bs. Inr (length bs)))))
          2 LOG_MESSAGE ''}|'') = Inl OverflowError \<and>
   take 10 (outBuffer (snd (sendString (setStreams (PacketTool_init 0) PyNone (Some (Socket (\<lambda>bs. Inr (length bs)))))
          2 LOG_MESSAGE ''}|''))) = [170, 85, 2, 0, 3, 0, 3, 125, 124, 0] \<and>
   sum_list [170, 85, 2, 0, 3, 0, 3, 125, 124, 0 :: int] mod 256 = 0"
  by code_simp

text \<open>
  Claim C8 as stated fails: on a link that never accepted a connection \<open>disconnect\<close>
  raises AttributeError.
\<close>

theorem disconnect_never_connected:
  "fst (disconnect EthernetLink_init False False) = Inl AttributeError"
  by (simp add: disconnect_def EthernetLink_init_def Let_def)

text \<open>
  Claim C8, amended. On a link that holds a client socket (a connection was accepted at
  some time, whether or not it is still connected) \<open>disconnect\<close> resets the receive buffer
  to empty and clears the connected flag, whatever \<open>shutdown\<close> does; it raises SocketBroken
  exactly when \<open>close\<close> fails and returns 0 otherwise; and a second \<open>disconnect\<close> leaves
  the link as the first one left it.
\<close>

theorem disconnect_with_socket:
  assumes "clientSocket link = Some sock"
  shows "disconnect link shutdownRaises closeRaises =
           (if closeRaises then Inl SocketBroken else Inr 0,
            link\<lparr>receiveBuf := reset_cb (receiveBuf link), connected := False\<rparr>) \<and>
         available (receiveBuf (snd (disconnect link shutdownRaises closeRaises))) = 0 \<and>
         \<not> connected (snd (disconnect link shutdownRaises closeRaises)) \<and>
         snd (disconnect (snd (disconnect link shutdownRaises closeRaises)) shutdownRaises' closeRaises')
           = snd (disconnect link shutdownRaises closeRaises)"
  using assms by (simp add: disconnect_def Let_def reset_cb_def available_def)

theorem disconnect_with_socket_witness:
  "clientSocket (accept_connection EthernetLink_init (Socket (\<lambda>bs. Inr (length bs))))
     = Some (Socket (\<lambda>bs. Inr (length bs))) \<and>
   fst (disconnect (accept_connection EthernetLink_init (Socket (\<lambda>bs. Inr (length bs)))) True False) = Inr 0 \<and>
   fst (disconnect (accept_connection EthernetLink_init (Socket (\<lambda>bs. Inr (length bs)))) False True) = Inl SocketBroken \<and>
   \<not> connected (snd (disconnect (accept_connection EthernetLink_init (Socket (\<lambda>bs. Inr (length bs)))) True False)) \<and>
   fst (disconnect (snd (disconnect (accept_connection EthernetLink_init (Socket (\<lambda>bs. Inr (length bs)))) True False)) True False) = Inr 0"
proof -
  let ?s = "Socket (\<lambda>bs. Inr (length bs))"
  let ?l = "accept_connection EthernetLink_init ?s"
  have h: "clientSocket ?l = Some ?s" by (simp add: accept_connection_def)
  have h2: "clientSocket (snd (disconnect ?l True False)) = Some ?s"
    by (simp add: accept_connection_def disconnect_def Let_def)
  from disconnect_with_socket[OF h, of True False] disconnect_with_socket[OF h, of False True]
    disconnect_with_socket[OF h2, of True False] h
  show ?thesis by simp
qed

end
